theory Spec2Isabelle
  imports Main
begin

unbundle bit_operations_syntax

section \<open>Data model\<close>

text \<open>
  The exceptions the program can raise.  Both \<^verbatim>\<open>ValueError\<close>s of \<^verbatim>\<open>Calculator\<close> carry the
  number that is formatted into their message.  The remaining constructors are the
  exceptions of the Python runtime and of the \<^verbatim>\<open>ipaddress\<close> and \<^verbatim>\<open>pydantic\<close>
  libraries that the modelled code can reach.
\<close>

datatype error =
    ValueError_TooManySubnets nat
  | ValueError_CannotFindPrefix int
  | ValueError_PrefixDiff
  | ValueError_HostBits
  | ValueError_NetmaskPattern
  | AddressValueError
  | NetmaskValueError
  | IndexError
  | KeyError
  | TypeError
  | ValidationError

text \<open>
  \<^verbatim>\<open>ipaddress.IPv4Network\<close>: the integer of the network address and the prefix length.
\<close>

record ipv4network =
  network_address :: nat
  prefixlen :: nat

text \<open>
  One element of a \<^verbatim>\<open>StructureType\<close> list: \<^verbatim>\<open>None\<close>, a string, a nested list, or a
  dictionary.  A dictionary is only ever read at the key \<^verbatim>\<open>'__placeholder__'\<close>, so it is
  represented by the value under that key (\<open>None\<close> when the key is missing).
\<close>

datatype item =
    NoneItem
  | StrItem string
  | ListItem "item list"
  | DictItem "int option"

text \<open>
  \<^verbatim>\<open>SubnetMetadata\<close>: every field defaults to \<^verbatim>\<open>None\<close>.  Its fields carry the prefix \<open>md\<close>
  because \<^verbatim>\<open>SubnetInfo\<close> has fields of the same names; the field \<^verbatim>\<open>structure\<close> of the
  configuration is \<open>cfg_structure\<close>, the plain name being a reserved word.
\<close>

record subnet_metadata =
  md_name :: "string option"
  md_description :: "string option"
  md_tier :: "string option"

record configuration =
  network_cidr :: ipv4network
  metadata :: "string \<rightharpoonup> subnet_metadata"
  cfg_structure :: "item list"

text \<open>
  A Python \<^verbatim>\<open>dict\<close> keeps its keys in insertion order, and assigning to a key that is
  already present replaces the value in place.
\<close>

type_synonym ('k, 'v) dict = "('k \<times> 'v) list"

fun dict_set :: "('k, 'v) dict \<Rightarrow> 'k \<Rightarrow> 'v \<Rightarrow> ('k, 'v) dict" where
  "dict_set [] k v = [(k, v)]"
| "dict_set ((k', v') # rest) k v =
     (if k' = k then (k, v) # rest else (k', v') # dict_set rest k v)"

definition list_get :: "'a list \<Rightarrow> nat \<Rightarrow> error + 'a" where
  "list_get xs i = (if i < length xs then Inr (xs ! i) else Inl IndexError)"

section \<open>The ipaddress operations used by the program\<close>

definition ALL_ONES :: nat where
  "ALL_ONES = 2 ^ 32 - 1"

definition netmask :: "ipv4network \<Rightarrow> nat" where
  "netmask net = ALL_ONES XOR drop_bit (prefixlen net) ALL_ONES"

definition hostmask :: "ipv4network \<Rightarrow> nat" where
  "hostmask net = netmask net XOR ALL_ONES"

definition broadcast_address :: "ipv4network \<Rightarrow> nat" where
  "broadcast_address net = network_address net OR hostmask net"

text \<open>
  \<^verbatim>\<open>range(start, stop, step)\<close> as a list, for a positive step (the only call below has
  one).
\<close>

definition py_range :: "nat \<Rightarrow> nat \<Rightarrow> nat \<Rightarrow> nat list" where
  "py_range start stop step =
     map (\<lambda>k. start + k * step) [0 ..< (stop + step - 1 - start) div step]"

text \<open>
  \<^verbatim>\<open>IPv4Network.subnets(prefixlen_diff)\<close>, collected into a list.
\<close>

definition subnets :: "ipv4network \<Rightarrow> nat \<Rightarrow> error + ipv4network list" where
  "subnets net prefixlen_diff =
     (if prefixlen net = 32 then Inr [net]
      else
        let new_prefixlen = prefixlen net + prefixlen_diff in
        if new_prefixlen > 32 then Inl ValueError_PrefixDiff
        else
          let start = network_address net;
              stop = broadcast_address net + 1;
              step = drop_bit prefixlen_diff (hostmask net + 1)
          in Inr (map (\<lambda>new_addr. \<lparr>network_address = new_addr, prefixlen = new_prefixlen\<rparr>)
                    (py_range start stop step)))"

section \<open>Calculator\<close>

fun structure_len_loop :: "int \<Rightarrow> item list \<Rightarrow> error + int" where
  "structure_len_loop count [] = Inr count"
| "structure_len_loop count (DictItem None # rest) = Inl KeyError"
| "structure_len_loop count (DictItem (Some n) # rest) = structure_len_loop (count + n) rest"
| "structure_len_loop count (_ # rest) = structure_len_loop (count + 1) rest"

definition find_structure_len :: "item list \<Rightarrow> error + int" where
  "find_structure_len structure = structure_len_loop 0 structure"

text \<open>
  \<^verbatim>\<open>math.pow(2, i)\<close> is exact for \<open>i < 32\<close> and Python compares an integer with a float
  exactly, so the test is the integer comparison.
\<close>

definition find_prefix :: "int \<Rightarrow> error + nat" where
  "find_prefix value =
     (case find (\<lambda>i. value \<le> 2 ^ i) [0 ..< 32] of
        Some i \<Rightarrow> Inr i
      | None \<Rightarrow> Inl (ValueError_CannotFindPrefix value))"

text \<open>
  \<^verbatim>\<open>Calculator._compute\<close> with the dictionary \<^verbatim>\<open>self.result\<close> passed explicitly; the
  dictionary is returned also when an exception is raised, since the assignments made
  before it stay in place.  \<open>compute_loop\<close> is the \<^verbatim>\<open>for\<close> loop over
  \<^verbatim>\<open>enumerate(structure)\<close>, started at index \<open>0\<close>.
\<close>

fun compute_rec :: "ipv4network \<Rightarrow> item list \<Rightarrow> (string, ipv4network) dict
      \<Rightarrow> (error + unit) \<times> (string, ipv4network) dict"
  and compute_loop :: "ipv4network list \<Rightarrow> nat \<Rightarrow> item list \<Rightarrow> (string, ipv4network) dict
      \<Rightarrow> (error + unit) \<times> (string, ipv4network) dict"
where
  "compute_rec parent_subnet structure res =
     (case find_structure_len structure of
        Inl e \<Rightarrow> (Inl e, res)
      | Inr structure_len \<Rightarrow>
          (case find_prefix structure_len of
             Inl e \<Rightarrow> (Inl e, res)
           | Inr prefix \<Rightarrow>
               if prefix + prefixlen parent_subnet > 32
               then (Inl (ValueError_TooManySubnets (prefix + prefixlen parent_subnet)), res)
               else
                 (case subnets parent_subnet prefix of
                    Inl e \<Rightarrow> (Inl e, res)
                  | Inr child_subnets \<Rightarrow> compute_loop child_subnets 0 structure res)))"
| "compute_loop child_subnets i [] res = (Inr (), res)"
| "compute_loop child_subnets i (structure_item # rest) res =
     (case list_get child_subnets i of
        Inl e \<Rightarrow> (Inl e, res)
      | Inr child_subnet \<Rightarrow>
          (case structure_item of
             NoneItem \<Rightarrow> compute_loop child_subnets (i + 1) rest res
           | StrItem s \<Rightarrow>
               if s = ''__placeholder__''
               then compute_loop child_subnets (i + 1) rest res
               else compute_loop child_subnets (i + 1) rest (dict_set res s child_subnet)
           | ListItem sub \<Rightarrow>
               (case compute_rec child_subnet sub res of
                  (Inl e, res') \<Rightarrow> (Inl e, res')
                | (Inr u, res') \<Rightarrow> compute_loop child_subnets (i + 1) rest res')
           | DictItem c \<Rightarrow> compute_loop child_subnets (i + 1) rest res))"

record calculator =
  config :: configuration
  result :: "(string, ipv4network) dict"
  default_metadata :: subnet_metadata

definition Calculator :: "configuration \<Rightarrow> subnet_metadata option \<Rightarrow> calculator" where
  "Calculator configuration dm =
     \<lparr>config = configuration,
      result = [],
      default_metadata =
        (case dm of
           None \<Rightarrow> \<lparr>md_name = Some ''---'', md_description = Some ''---'', md_tier = Some ''''\<rparr>
         | Some d \<Rightarrow> d)\<rparr>"

text \<open>
  \<^verbatim>\<open>Calculator.compute\<close>: the returned dictionary, or the exception, and the calculator
  afterwards.
\<close>

definition compute :: "calculator \<Rightarrow> (error + (string, ipv4network) dict) \<times> calculator" where
  "compute self =
     (case compute_rec (network_cidr (config self)) (cfg_structure (config self)) (result self) of
        (Inl e, res) \<Rightarrow> (Inl e, self\<lparr>result := res\<rparr>)
      | (Inr u, res) \<Rightarrow> (Inr res, self\<lparr>result := res\<rparr>))"

section \<open>Specification vocabulary\<close>

text \<open>
  The class invariant of \<^verbatim>\<open>IPv4Network\<close>: the prefix length is at most 32, the address
  fits 32 bits and has no host bit set.
\<close>

definition valid_network :: "ipv4network \<Rightarrow> bool" where
  "valid_network net \<longleftrightarrow>
     prefixlen net \<le> 32 \<and> network_address net < 2 ^ 32 \<and>
     network_address net mod 2 ^ (32 - prefixlen net) = 0"

text \<open>
  The addresses of a block: the \<open>2 ^ (32 - prefixlen)\<close> consecutive integers that start
  at the network address.
\<close>

definition addresses :: "ipv4network \<Rightarrow> nat set" where
  "addresses net =
     {a. network_address net \<le> a \<and> a < network_address net + 2 ^ (32 - prefixlen net)}"

text \<open>
  The identifiers of the leaves of a structure, in pre-order.  A leaf is a string other
  than \<^verbatim>\<open>'__placeholder__'\<close>.
\<close>

fun item_leaf_ids :: "item \<Rightarrow> string list" where
  "item_leaf_ids NoneItem = []"
| "item_leaf_ids (StrItem s) = (if s = ''__placeholder__'' then [] else [s])"
| "item_leaf_ids (ListItem sub) = concat (map item_leaf_ids sub)"
| "item_leaf_ids (DictItem c) = []"

definition leaf_ids :: "item list \<Rightarrow> string list" where
  "leaf_ids structure = concat (map item_leaf_ids structure)"

text \<open>
  The leaves of a structure in pre-order, each with the block that the walk of
  \<^verbatim>\<open>_compute\<close> hands to it: the element at index \<open>i\<close> of a list is given the \<open>i\<close>-th
  sub-block of the split of the list's parent.
\<close>

fun leaf_blocks :: "ipv4network \<Rightarrow> item list \<Rightarrow> (string \<times> ipv4network) list"
  and loop_blocks :: "ipv4network list \<Rightarrow> nat \<Rightarrow> item list \<Rightarrow> (string \<times> ipv4network) list"
where
  "leaf_blocks parent_subnet structure =
     (case find_structure_len structure of
        Inl e \<Rightarrow> []
      | Inr structure_len \<Rightarrow>
          (case find_prefix structure_len of
             Inl e \<Rightarrow> []
           | Inr prefix \<Rightarrow>
               (case subnets parent_subnet prefix of
                  Inl e \<Rightarrow> []
                | Inr child_subnets \<Rightarrow> loop_blocks child_subnets 0 structure)))"
| "loop_blocks child_subnets i [] = []"
| "loop_blocks child_subnets i (structure_item # rest) =
     (if i < length child_subnets then
        (case structure_item of
           NoneItem \<Rightarrow> []
         | StrItem s \<Rightarrow> if s = ''__placeholder__'' then [] else [(s, child_subnets ! i)]
         | ListItem sub \<Rightarrow> leaf_blocks (child_subnets ! i) sub
         | DictItem c \<Rightarrow> [])
      else [])
     @ loop_blocks child_subnets (i + 1) rest"

text \<open>Assigning a sequence of entries to a dictionary, one after the other.\<close>

definition dict_set_all :: "('k, 'v) dict \<Rightarrow> ('k \<times> 'v) list \<Rightarrow> ('k, 'v) dict" where
  "dict_set_all d kvs = foldl (\<lambda>r kv. dict_set r (fst kv) (snd kv)) d kvs"

text \<open>Blocks that pairwise share no address.\<close>

definition disjoint_blocks :: "ipv4network list \<Rightarrow> bool" where
  "disjoint_blocks bs \<longleftrightarrow>
     (\<forall>i<length bs. \<forall>j<length bs. i \<noteq> j \<longrightarrow> addresses (bs ! i) \<inter> addresses (bs ! j) = {})"

text \<open>
  What a split of a network has to provide: every part is itself a valid network inside
  the network, and two different parts share no address.
\<close>

definition good_split :: "ipv4network \<Rightarrow> ipv4network list \<Rightarrow> bool" where
  "good_split net cs \<longleftrightarrow>
     (\<forall>k<length cs. valid_network (cs ! k) \<and> addresses (cs ! k) \<subseteq> addresses net) \<and>
     (\<forall>j<length cs. \<forall>k<length cs. j \<noteq> k \<longrightarrow> addresses (cs ! j) \<inter> addresses (cs ! k) = {})"

text \<open>
  Two structures of the same shape: they differ at most in the identifiers of their
  leaves.
\<close>

fun same_shape :: "item \<Rightarrow> item \<Rightarrow> bool" where
  "same_shape NoneItem NoneItem = True"
| "same_shape (StrItem s) (StrItem t) = (s = ''__placeholder__'' \<longleftrightarrow> t = ''__placeholder__'')"
| "same_shape (ListItem xs) (ListItem ys) = list_all2 same_shape xs ys"
| "same_shape (DictItem c) (DictItem c') = (c = c')"
| "same_shape _ _ = False"

text \<open>
  Every placeholder dictionary of the structure, at every depth, has its key and a count
  of at least one.
\<close>

fun counts_ok :: "item \<Rightarrow> bool" where
  "counts_ok NoneItem = True"
| "counts_ok (StrItem s) = True"
| "counts_ok (ListItem sub) = list_all counts_ok sub"
| "counts_ok (DictItem c) = (case c of None \<Rightarrow> False | Some k \<Rightarrow> 1 \<le> k)"

section \<open>Exporter\<close>

text \<open>\<^verbatim>\<open>str(n)\<close> for a non-negative integer.\<close>

fun str_nat :: "nat \<Rightarrow> string" where
  "str_nat n =
     (if n < 10 then [''0123456789'' ! n]
      else str_nat (n div 10) @ [''0123456789'' ! (n mod 10)])"

declare str_nat.simps [simp del]

text \<open>\<^verbatim>\<open>sep.join(parts)\<close>.\<close>

fun join :: "string \<Rightarrow> string list \<Rightarrow> string" where
  "join sep [] = []"
| "join sep [x] = x"
| "join sep (x # y # ys) = x @ sep @ join sep (y # ys)"

text \<open>\<^verbatim>\<open>n.to_bytes(4, 'big')\<close>, for an address below \<open>2 ^ 32\<close>.\<close>

definition to_bytes4 :: "nat \<Rightarrow> nat list" where
  "to_bytes4 a = [a div 2 ^ 24 mod 256, a div 2 ^ 16 mod 256, a div 2 ^ 8 mod 256, a mod 256]"

text \<open>
  \<^verbatim>\<open>IPv4Address.compressed\<close>, the dotted quad, and \<^verbatim>\<open>IPv4Network.compressed\<close>, the
  address, a slash and the prefix length.
\<close>

definition address_compressed :: "nat \<Rightarrow> string" where
  "address_compressed a = join ''.'' (map str_nat (to_bytes4 a))"

definition network_compressed :: "ipv4network \<Rightarrow> string" where
  "network_compressed net =
     address_compressed (network_address net) @ ''/'' @ str_nat (prefixlen net)"

text \<open>
  The constructor \<^verbatim>\<open>IPv4Address(n)\<close> for an integer, and \<^verbatim>\<open>IPv4Network.__getitem__\<close>.
\<close>

definition IPv4Address :: "int \<Rightarrow> error + nat" where
  "IPv4Address a = (if a < 0 \<or> int ALL_ONES < a then Inl AddressValueError else Inr (nat a))"

definition network_getitem :: "ipv4network \<Rightarrow> int \<Rightarrow> error + nat" where
  "network_getitem net n =
     (let network = int (network_address net);
          broadcast = int (broadcast_address net)
      in if 0 \<le> n then
           (if broadcast < network + n then Inl IndexError else IPv4Address (network + n))
         else
           (let n' = n + 1
            in if broadcast + n' < network then Inl IndexError
               else IPv4Address (broadcast + n')))"

record subnet_info =
  info_id :: string
  info_name :: string
  info_description :: string
  info_cidr :: ipv4network
  first_address :: string
  last_address :: string

record exporter =
  exp_config :: configuration
  exp_structure :: "(string, ipv4network) dict"
  exp_default_metadata :: subnet_metadata
  exp_data :: "subnet_info list"

text \<open>
  The loop of \<^verbatim>\<open>Exporter.build_data\<close>.  The keyword arguments of \<^verbatim>\<open>SubnetInfo(...)\<close> are
  evaluated in the order written, so \<^verbatim>\<open>len(subnet_metadata.name)\<close> raises \<^verbatim>\<open>TypeError\<close>
  for a name that is \<^verbatim>\<open>None\<close> before anything else is looked at; the model is validated
  last and rejects a description that is \<^verbatim>\<open>None\<close>.
\<close>

fun build_data_loop :: "configuration \<Rightarrow> subnet_metadata \<Rightarrow> (string, ipv4network) dict
      \<Rightarrow> subnet_info list \<Rightarrow> error + subnet_info list" where
  "build_data_loop cfg dm [] data = Inr data"
| "build_data_loop cfg dm ((subnet_id, subnet_cidr) # rest) data =
     (let subnet_metadata = (case metadata cfg subnet_id of Some m \<Rightarrow> m | None \<Rightarrow> dm) in
      case md_name subnet_metadata of
        None \<Rightarrow> Inl TypeError
      | Some nm \<Rightarrow>
          (case network_getitem subnet_cidr 0 of
             Inl e \<Rightarrow> Inl e
           | Inr first_addr \<Rightarrow>
               (case network_getitem subnet_cidr (- 1) of
                  Inl e \<Rightarrow> Inl e
                | Inr last_addr \<Rightarrow>
                    (case md_description subnet_metadata of
                       None \<Rightarrow> Inl ValidationError
                     | Some d \<Rightarrow>
                         build_data_loop cfg dm rest
                           (data @
                            [\<lparr>info_id = subnet_id,
                              info_name = (if 0 < length nm then nm else subnet_id),
                              info_description = d,
                              info_cidr = subnet_cidr,
                              first_address = address_compressed first_addr,
                              last_address = address_compressed last_addr\<rparr>])))))"

definition build_data :: "exporter \<Rightarrow> error + exporter" where
  "build_data self =
     (if 0 < length (exp_data self) then Inr self
      else
        (case build_data_loop (exp_config self) (exp_default_metadata self)
                (exp_structure self) (exp_data self) of
           Inl e \<Rightarrow> Inl e
         | Inr d \<Rightarrow> Inr (self\<lparr>exp_data := d\<rparr>)))"

text \<open>\<^verbatim>\<open>Exporter.__init__\<close>, which ends with the call of \<^verbatim>\<open>build_data\<close>.\<close>

definition Exporter :: "configuration \<Rightarrow> (string, ipv4network) dict \<Rightarrow> subnet_metadata option
      \<Rightarrow> error + exporter" where
  "Exporter cfg structure dm =
     build_data
       \<lparr>exp_config = cfg,
        exp_structure = structure,
        exp_default_metadata =
          (case dm of
             Some d \<Rightarrow> d
           | None \<Rightarrow> \<lparr>md_name = Some '''', md_description = Some ''---'', md_tier = Some ''---''\<rparr>),
        exp_data = []\<rparr>"

record subnet_dict =
  d_id :: string
  d_name :: string
  d_cidr :: string
  d_description :: string
  d_first_address :: string
  d_last_address :: string

record export_dict =
  d_network_cidr :: string
  d_subnets :: "subnet_dict list"

definition to_dict :: "exporter \<Rightarrow> export_dict" where
  "to_dict self =
     \<lparr>d_network_cidr = network_compressed (network_cidr (exp_config self)),
      d_subnets =
        map (\<lambda>info.
               \<lparr>d_id = info_id info,
                d_name = info_name info,
                d_cidr = network_compressed (info_cidr info),
                d_description = info_description info,
                d_first_address = first_address info,
                d_last_address = last_address info\<rparr>)
          (exp_data self)\<rparr>"

section \<open>Reading the structured form back\<close>

text \<open>
  The program only writes the structured form; it has no reader.  The definitions of
  this section are therefore not embeddings of functions of the program.  They are
  modelled from the specification, which has a string in CIDR notation "parsed into" a
  network block (section 6) and the records "re-derived" from the structured form
  (section 8), and they follow the constructor \<^verbatim>\<open>ipaddress.IPv4Network(str)\<close>, to which
  the program leaves every parsing of such a string.
\<close>

text \<open>
  Modelled from the spec: the test \<^verbatim>\<open>s.isascii() and s.isdigit()\<close> on one character, used
  when a string in CIDR notation is parsed.
\<close>

definition isdigit :: "char \<Rightarrow> bool" where
  "isdigit c \<longleftrightarrow> c \<in> set ''0123456789''"

text \<open>Modelled from the spec: the value of an ASCII digit.\<close>

definition digit_value :: "char \<Rightarrow> nat" where
  "digit_value c = of_char c - 48"

text \<open>Modelled from the spec: \<^verbatim>\<open>int(s)\<close> for a string of ASCII digits.\<close>

definition int_of_str :: "string \<Rightarrow> nat" where
  "int_of_str s = foldl (\<lambda>acc c. 10 * acc + digit_value c) 0 s"

text \<open>Modelled from the spec: \<^verbatim>\<open>s.split(c)\<close> for a separator of one character.\<close>

fun split_on :: "char \<Rightarrow> string \<Rightarrow> string list" where
  "split_on c [] = [[]]"
| "split_on c (x # xs) =
     (if x = c then [] # split_on c xs
      else (case split_on c xs of
              [] \<Rightarrow> [[x]]
            | w # ws \<Rightarrow> (x # w) # ws))"

text \<open>
  Modelled from the spec: the parsing of one octet of a dotted quad
  (\<^verbatim>\<open>IPv4Address._parse_octet\<close>): a non-empty string of at most three ASCII digits,
  without a leading zero unless it is \<^verbatim>\<open>0\<close>, of value at most 255.
\<close>

definition parse_octet :: "string \<Rightarrow> error + nat" where
  "parse_octet octet_str =
     (if octet_str = [] then Inl AddressValueError
      else if \<not> list_all isdigit octet_str then Inl AddressValueError
      else if 3 < length octet_str then Inl AddressValueError
      else if octet_str \<noteq> ''0'' \<and> hd octet_str = CHR ''0'' then Inl AddressValueError
      else
        let octet_int = int_of_str octet_str in
        if 255 < octet_int then Inl AddressValueError else Inr octet_int)"

text \<open>
  Modelled from the spec: the results of a list of computations, or the first exception,
  as a comprehension over calls that may raise gives them.
\<close>

fun collect :: "(error + 'a) list \<Rightarrow> error + 'a list" where
  "collect [] = Inr []"
| "collect (Inl e # rs) = Inl e"
| "collect (Inr x # rs) = (case collect rs of Inl e \<Rightarrow> Inl e | Inr xs \<Rightarrow> Inr (x # xs))"

text \<open>Modelled from the spec: \<^verbatim>\<open>int.from_bytes(bs, 'big')\<close>.\<close>

definition from_bytes :: "nat list \<Rightarrow> nat" where
  "from_bytes bs = foldl (\<lambda>acc b. acc * 256 + b) 0 bs"

text \<open>
  Modelled from the spec: the integer of a dotted quad
  (\<^verbatim>\<open>IPv4Address._ip_int_from_string\<close>).
\<close>

definition ip_int_from_string :: "string \<Rightarrow> error + nat" where
  "ip_int_from_string ip_str =
     (if ip_str = [] then Inl AddressValueError
      else
        let octets = split_on CHR ''.'' ip_str in
        if length octets \<noteq> 4 then Inl AddressValueError
        else (case collect (map parse_octet octets) of
                Inl e \<Rightarrow> Inl e
              | Inr bs \<Rightarrow> Inr (from_bytes bs)))"

text \<open>
  Modelled from the spec: the constructor \<^verbatim>\<open>IPv4Address(str)\<close>, which refuses a string
  with a slash.
\<close>

definition IPv4Address_of_str :: "string \<Rightarrow> error + nat" where
  "IPv4Address_of_str addr_str =
     (if CHR ''/'' \<in> set addr_str then Inl AddressValueError
      else ip_int_from_string addr_str)"

text \<open>
  Modelled from the spec: a prefix length written in decimal
  (\<^verbatim>\<open>_prefix_from_prefix_string\<close>).
\<close>

definition prefix_from_prefix_string :: "string \<Rightarrow> error + nat" where
  "prefix_from_prefix_string prefixlen_str =
     (if prefixlen_str = [] \<or> \<not> list_all isdigit prefixlen_str then Inl NetmaskValueError
      else
        let prefixlen = int_of_str prefixlen_str in
        if 32 < prefixlen then Inl NetmaskValueError else Inr prefixlen)"

text \<open>
  Modelled from the spec: the number of zero bits at the low end of a number, at most
  \<open>bits\<close> (\<^verbatim>\<open>_count_righthand_zero_bits\<close>).
\<close>

definition count_righthand_zero_bits :: "nat \<Rightarrow> nat \<Rightarrow> nat" where
  "count_righthand_zero_bits number bits =
     (if number = 0 then bits
      else (case find (\<lambda>k. bit number k) [0 ..< bits] of
              Some k \<Rightarrow> k
            | None \<Rightarrow> bits))"

text \<open>
  Modelled from the spec: the prefix length of a netmask given as an integer
  (\<^verbatim>\<open>_prefix_from_ip_int\<close>); the bits above the trailing zeros must all be ones.
\<close>

definition prefix_from_ip_int :: "nat \<Rightarrow> error + nat" where
  "prefix_from_ip_int ip_int =
     (let trailing_zeroes = count_righthand_zero_bits ip_int 32;
          prefixlen = 32 - trailing_zeroes;
          leading_ones = drop_bit trailing_zeroes ip_int;
          all_ones = push_bit prefixlen 1 - 1
      in if leading_ones \<noteq> all_ones then Inl ValueError_NetmaskPattern else Inr prefixlen)"

text \<open>
  Modelled from the spec: a mask written as a dotted quad, read as a netmask and, failing
  that, as a hostmask (\<^verbatim>\<open>_prefix_from_ip_string\<close>).
\<close>

definition prefix_from_ip_string :: "string \<Rightarrow> error + nat" where
  "prefix_from_ip_string ip_str =
     (case ip_int_from_string ip_str of
        Inl e \<Rightarrow> Inl NetmaskValueError
      | Inr ip_int \<Rightarrow>
          (case prefix_from_ip_int ip_int of
             Inr plen \<Rightarrow> Inr plen
           | Inl e \<Rightarrow>
               (case prefix_from_ip_int (ip_int XOR ALL_ONES) of
                  Inr plen \<Rightarrow> Inr plen
                | Inl e' \<Rightarrow> Inl NetmaskValueError)))"

text \<open>
  Modelled from the spec: the mask after the slash (\<^verbatim>\<open>_make_netmask\<close> on a string): a
  decimal prefix length, or else a dotted netmask or hostmask.
\<close>

definition make_netmask :: "string \<Rightarrow> error + nat" where
  "make_netmask arg =
     (case prefix_from_prefix_string arg of
        Inr plen \<Rightarrow> Inr plen
      | Inl e \<Rightarrow> prefix_from_ip_string arg)"

text \<open>
  Modelled from the spec: a string in CIDR notation parsed into a network block, as the
  constructor \<^verbatim>\<open>IPv4Network(str)\<close> does it: at most one slash, an address, a mask (32
  when there is none), and no host bit set.
\<close>

definition IPv4Network_of_str :: "string \<Rightarrow> error + ipv4network" where
  "IPv4Network_of_str address =
     (let addr = split_on CHR ''/'' address in
      if 2 < length addr then Inl AddressValueError
      else
        (case IPv4Address_of_str (hd addr) of
           Inl e \<Rightarrow> Inl e
         | Inr a \<Rightarrow>
             (case (if 1 < length addr then make_netmask (addr ! 1) else Inr 32) of
                Inl e \<Rightarrow> Inl e
              | Inr p \<Rightarrow>
                  let net = \<lparr>network_address = a, prefixlen = p\<rparr> in
                  if a AND netmask net \<noteq> a then Inl ValueError_HostBits else Inr net)))"

text \<open>
  Modelled from the spec: the allocation plan read back from the structured form, the
  first step of re-deriving the records (section 8): the identifier of every record
  with the network that its \<^verbatim>\<open>cidr\<close> string parses into.
\<close>

definition plan_of_form :: "export_dict \<Rightarrow> error + (string, ipv4network) dict" where
  "plan_of_form form =
     collect
       (map (\<lambda>d. case IPv4Network_of_str (d_cidr d) of
                    Inl e \<Rightarrow> Inl e
                  | Inr net \<Rightarrow> Inr (d_id d, net))
          (d_subnets form))"

text \<open>
  Modelled from the spec: the records re-derived from the structured form (section 8):
  the plan is read back and handed to the exporter of the program, which builds the
  records from it as it built the original ones.
\<close>

definition rederive_records :: "configuration \<Rightarrow> subnet_metadata option \<Rightarrow> export_dict
      \<Rightarrow> error + subnet_info list" where
  "rederive_records cfg dm form =
     (case plan_of_form form of
        Inl e \<Rightarrow> Inl e
      | Inr plan \<Rightarrow>
          (case Exporter cfg plan dm of
             Inl e \<Rightarrow> Inl e
           | Inr ex \<Rightarrow> Inr (exp_data ex)))"

section \<open>Properties of the ipaddress operations\<close>

lemma ALL_ONES_mask: "ALL_ONES = mask 32"
  by (simp add: ALL_ONES_def mask_eq_exp_minus_1)

lemma xor_cancel_left:
  fixes a b :: nat
  shows "a XOR (a XOR b) = b"
  by (simp flip: xor.assoc)

lemma hostmask_eq: "hostmask net = 2 ^ (32 - prefixlen net) - 1"
proof -
  have "hostmask net = mask (32 - prefixlen net)"
    unfolding hostmask_def netmask_def ALL_ONES_mask drop_bit_mask_eq
    by (simp add: xor.commute xor_cancel_left)
  then show ?thesis by (simp add: mask_eq_exp_minus_1)
qed

lemma or_low_bits:
  fixes a :: nat
  assumes "a mod 2 ^ k = 0"
  shows "a OR (2 ^ k - 1) = a + (2 ^ k - 1)"
proof -
  have "a AND mask k = 0"
    using assms by (simp add: take_bit_eq_mod flip: take_bit_eq_mask)
  then have "a + mask k = a OR mask k" by (rule disjunctive_add_eq_or)
  then show ?thesis by (simp add: mask_eq_exp_minus_1)
qed

lemma broadcast_address_eq:
  assumes "valid_network net"
  shows "broadcast_address net = network_address net + 2 ^ (32 - prefixlen net) - 1"
  using assms or_low_bits[of "network_address net" "32 - prefixlen net"]
  by (simp add: broadcast_address_def hostmask_eq valid_network_def)

lemma div_round_up_exact:
  fixes n step :: nat
  assumes "0 < step"
  shows "(n * step + (step - 1)) div step = n"
  using assms
  by (metis add_cancel_left_right diff_less div_less div_mult_self3
      less_numeral_extra(1) not_gr_zero)

lemma py_range_exact:
  assumes "0 < step"
  shows "py_range start (start + n * step) step = map (\<lambda>k. start + k * step) [0 ..< n]"
proof -
  have "(start + n * step + step - 1 - start) div step = (n * step + (step - 1)) div step"
    using assms by (simp add: algebra_simps)
  also have "\<dots> = n" using assms by (rule div_round_up_exact)
  finally show ?thesis by (simp add: py_range_def)
qed

text \<open>
  Splitting a valid network by \<open>d\<close> more prefix bits gives \<open>2 ^ d\<close> networks of equal
  size, by increasing address.
\<close>

lemma subnets_eq:
  assumes "valid_network net" and "prefixlen net + d \<le> 32"
  shows "subnets net d =
     Inr (map (\<lambda>k. \<lparr>network_address = network_address net + k * 2 ^ (32 - (prefixlen net + d)),
                    prefixlen = prefixlen net + d\<rparr>) [0 ..< 2 ^ d])"
proof (cases "prefixlen net = 32")
  case True
  then have "d = 0" using assms(2) by simp
  then show ?thesis using True by (simp add: subnets_def)
next
  case False
  let ?p = "prefixlen net"
  let ?s = "(2::nat) ^ (32 - (?p + d))"
  have size: "(2::nat) ^ (32 - ?p) = 2 ^ d * ?s"
    using assms(2) by (simp flip: power_add)
  have h1: "hostmask net + 1 = 2 ^ (32 - ?p)" by (simp add: hostmask_eq)
  have step: "drop_bit d (hostmask net + 1) = ?s"
    unfolding h1 size by (simp add: drop_bit_eq_div)
  have stop: "broadcast_address net + 1 = network_address net + 2 ^ d * ?s"
    using broadcast_address_eq[OF assms(1)] size by simp
  have "py_range (network_address net) (broadcast_address net + 1) ?s =
        map (\<lambda>k. network_address net + k * ?s) [0 ..< 2 ^ d]"
    unfolding stop by (rule py_range_exact) simp
  then show ?thesis
    using False assms(2) step by (simp add: subnets_def Let_def comp_def)
qed

lemma valid_network_top:
  assumes "valid_network net"
  shows "network_address net + 2 ^ (32 - prefixlen net) \<le> 2 ^ 32"
proof -
  let ?k = "32 - prefixlen net"
  obtain m where m: "network_address net = m * 2 ^ ?k"
    using assms by (auto simp: valid_network_def mod_eq_0_iff_dvd)
  have "(2::nat) ^ 32 = 2 ^ prefixlen net * 2 ^ ?k"
    using assms by (simp add: valid_network_def flip: power_add)
  moreover have "m * 2 ^ ?k < 2 ^ prefixlen net * 2 ^ ?k"
    using assms m calculation by (simp add: valid_network_def)
  then have "m < 2 ^ prefixlen net" by simp
  then have "(m + 1) * 2 ^ ?k \<le> 2 ^ prefixlen net * 2 ^ ?k"
    by (intro mult_le_mono1) simp
  ultimately show ?thesis using m by (simp add: algebra_simps)
qed

lemma subnets_nth:
  assumes "valid_network net" and "prefixlen net + d \<le> 32" and "subnets net d = Inr cs"
  shows "length cs = 2 ^ d"
    and "k < 2 ^ d \<Longrightarrow> cs ! k =
      \<lparr>network_address = network_address net + k * 2 ^ (32 - (prefixlen net + d)),
       prefixlen = prefixlen net + d\<rparr>"
  using assms subnets_eq[OF assms(1,2)] by auto

lemma subnets_child:
  assumes v: "valid_network net" and le: "prefixlen net + d \<le> 32"
    and cs: "subnets net d = Inr cs" and k: "k < length cs"
  shows "valid_network (cs ! k)"
    and "addresses (cs ! k) \<subseteq> addresses net"
    and "addresses (cs ! k) =
      {a. network_address net + k * 2 ^ (32 - (prefixlen net + d)) \<le> a \<and>
          a < network_address net + (k + 1) * 2 ^ (32 - (prefixlen net + d))}"
proof -
  let ?p = "prefixlen net"
  let ?s = "(2::nat) ^ (32 - (?p + d))"
  have k': "k < 2 ^ d" using k subnets_nth(1)[OF v le cs] by simp
  have ck: "cs ! k = \<lparr>network_address = network_address net + k * ?s, prefixlen = ?p + d\<rparr>"
    using subnets_nth(2)[OF v le cs k'] .
  have size: "(2::nat) ^ (32 - ?p) = 2 ^ d * ?s"
    using le by (simp flip: power_add)
  have "(k + 1) * ?s \<le> 2 ^ d * ?s" using k' by (intro mult_le_mono1) simp
  then have inside: "k * ?s + ?s \<le> 2 ^ (32 - ?p)" using size by (simp add: algebra_simps)
  have top: "network_address net + 2 ^ (32 - ?p) \<le> 2 ^ 32" by (rule valid_network_top[OF v])
  have "?s dvd 2 ^ (32 - ?p)" using size by simp
  moreover have "2 ^ (32 - ?p) dvd network_address net"
    using v by (simp add: valid_network_def mod_eq_0_iff_dvd)
  ultimately have "?s dvd network_address net" by (rule dvd_trans)
  then have dvd: "?s dvd network_address net + k * ?s" by simp
  have pos: "0 < ?s" by simp
  have lt: "network_address net + k * ?s < 2 ^ 32"
    using inside top pos by linarith
  show "valid_network (cs ! k)"
    unfolding valid_network_def ck using le lt dvd
    by (simp only: ipv4network.simps mod_eq_0_iff_dvd)
  show "addresses (cs ! k) \<subseteq> addresses net"
    using inside by (auto simp: ck addresses_def)
  show "addresses (cs ! k) =
      {a. network_address net + k * ?s \<le> a \<and> a < network_address net + (k + 1) * ?s}"
    by (auto simp: ck addresses_def algebra_simps)
qed

lemma subnets_disjoint:
  assumes v: "valid_network net" and le: "prefixlen net + d \<le> 32"
    and cs: "subnets net d = Inr cs" and k: "j < length cs" "k < length cs" and ne: "j \<noteq> k"
  shows "addresses (cs ! j) \<inter> addresses (cs ! k) = {}"
proof -
  let ?s = "(2::nat) ^ (32 - (prefixlen net + d))"
  have *: "addresses (cs ! j) \<inter> addresses (cs ! k) = {}" if "j < k" "k < length cs" for j k
  proof -
    have jl: "j < length cs" using that by simp
    have le': "(j + 1) * ?s \<le> k * ?s" using that(1) by (intro mult_le_mono1) simp
    have "False" if a: "a \<in> addresses (cs ! j)" "a \<in> addresses (cs ! k)" for a
    proof -
      have "a < network_address net + (j + 1) * ?s"
        using a(1) unfolding subnets_child(3)[OF v le cs jl] by simp
      moreover have "network_address net + k * ?s \<le> a"
        using a(2) unfolding subnets_child(3)[OF v le cs \<open>k < length cs\<close>] by simp
      ultimately show False using le' by linarith
    qed
    then show ?thesis by blast
  qed
  show ?thesis
  proof (cases "j < k")
    case True
    then show ?thesis using * k by blast
  next
    case False
    then have "k < j" using ne by simp
    then have "addresses (cs ! k) \<inter> addresses (cs ! j) = {}" using * k by blast
    then show ?thesis by blast
  qed
qed

lemma subnets_good_split:
  assumes v: "valid_network net" and cs: "subnets net d = Inr cs"
  shows "good_split net cs"
proof (cases "prefixlen net = 32")
  case True
  then have "cs = [net]" using cs by (simp add: subnets_def)
  then show ?thesis using v by (simp add: good_split_def)
next
  case False
  then have le: "prefixlen net + d \<le> 32"
    using cs by (simp add: subnets_def Let_def split: if_splits)
  show ?thesis
    unfolding good_split_def
  proof (intro conjI allI impI)
    fix k assume "k < length cs"
    then show "valid_network (cs ! k)" "addresses (cs ! k) \<subseteq> addresses net"
      using subnets_child(1,2)[OF v le cs] by simp_all
  next
    fix j k assume "j < length cs" "k < length cs" "j \<noteq> k"
    then show "addresses (cs ! j) \<inter> addresses (cs ! k) = {}"
      by (rule subnets_disjoint[OF v le cs])
  qed
qed

section \<open>The walk and the pre-order list of leaves\<close>

lemma disjoint_blocks_sorted_wrt:
  "disjoint_blocks bs \<longleftrightarrow> sorted_wrt (\<lambda>a b. addresses a \<inter> addresses b = {}) bs"
proof
  assume "disjoint_blocks bs"
  then show "sorted_wrt (\<lambda>a b. addresses a \<inter> addresses b = {}) bs"
    unfolding disjoint_blocks_def sorted_wrt_iff_nth_less by auto
next
  assume s: "sorted_wrt (\<lambda>a b. addresses a \<inter> addresses b = {}) bs"
  show "disjoint_blocks bs"
    unfolding disjoint_blocks_def
  proof (intro allI impI)
    fix i j assume ij: "i < length bs" "j < length bs" "i \<noteq> j"
    show "addresses (bs ! i) \<inter> addresses (bs ! j) = {}"
    proof (cases "i < j")
      case True
      then show ?thesis using s ij unfolding sorted_wrt_iff_nth_less by blast
    next
      case False
      then have "j < i" using ij by simp
      then have "addresses (bs ! j) \<inter> addresses (bs ! i) = {}"
        using s ij unfolding sorted_wrt_iff_nth_less by blast
      then show ?thesis by blast
    qed
  qed
qed

declare compute_rec.simps [simp del] leaf_blocks.simps [simp del]

lemma dict_set_all_Nil [simp]: "dict_set_all d [] = d"
  by (simp add: dict_set_all_def)

lemma dict_set_all_Cons [simp]:
  "dict_set_all d (kv # kvs) = dict_set_all (dict_set d (fst kv) (snd kv)) kvs"
  by (simp add: dict_set_all_def)

lemma dict_set_all_append [simp]:
  "dict_set_all d (xs @ ys) = dict_set_all (dict_set_all d xs) ys"
  by (simp add: dict_set_all_def)

lemma leaf_ids_Nil [simp]: "leaf_ids [] = []"
  by (simp add: leaf_ids_def)

lemma leaf_ids_Cons [simp]: "leaf_ids (x # xs) = item_leaf_ids x @ leaf_ids xs"
  by (simp add: leaf_ids_def)

lemma good_split_nth:
  assumes "good_split net cs"
  shows "k < length cs \<Longrightarrow> valid_network (cs ! k)"
    and "k < length cs \<Longrightarrow> addresses (cs ! k) \<subseteq> addresses net"
    and "j < length cs \<Longrightarrow> k < length cs \<Longrightarrow> j \<noteq> k \<Longrightarrow>
         addresses (cs ! j) \<inter> addresses (cs ! k) = {}"
  using assms unfolding good_split_def by blast+

lemma leaf_blocks_cases:
  obtains "leaf_blocks parent s = []"
  | n p cs where "find_structure_len s = Inr n" "find_prefix n = Inr p"
      "subnets parent p = Inr cs" "leaf_blocks parent s = loop_blocks cs 0 s"
  by (cases "find_structure_len s"; cases "find_prefix (projr (find_structure_len s))";
      cases "subnets parent (projr (find_prefix (projr (find_structure_len s))))")
     (simp_all add: leaf_blocks.simps)

lemma blocks_within:
  shows "valid_network parent \<Longrightarrow> (k, b) \<in> set (leaf_blocks parent s) \<Longrightarrow>
           valid_network b \<and> addresses b \<subseteq> addresses parent"
    and "good_split net cs \<Longrightarrow> (k, b) \<in> set (loop_blocks cs i items) \<Longrightarrow>
           valid_network b \<and> (\<exists>j\<ge>i. j < length cs \<and> addresses b \<subseteq> addresses (cs ! j))"
proof (induction parent s and cs i items arbitrary: k b and k b net
    rule: leaf_blocks_loop_blocks.induct)
  case (1 parent_subnet st)
  from "1.prems"(2) obtain n p cs where
    n: "find_structure_len st = Inr n" and p: "find_prefix n = Inr p"
    and cs: "subnets parent_subnet p = Inr cs" and mem: "(k, b) \<in> set (loop_blocks cs 0 st)"
    by (cases rule: leaf_blocks_cases[of parent_subnet st]) auto
  have gs: "good_split parent_subnet cs" by (rule subnets_good_split[OF "1.prems"(1) cs])
  from "1.IH"[OF n p cs gs mem] obtain j where
    "valid_network b" "j < length cs" "addresses b \<subseteq> addresses (cs ! j)" by blast
  then show ?case using good_split_nth(2)[OF gs, of j] by blast
next
  case (2 child_subnets i)
  then show ?case by simp
next
  case (3 child_subnets i structure_item rest)
  from "3.prems"(2) consider
    (here) "i < length child_subnets" "(k, b) \<in> set (case structure_item of
           NoneItem \<Rightarrow> []
         | StrItem s \<Rightarrow> if s = ''__placeholder__'' then [] else [(s, child_subnets ! i)]
         | ListItem sub \<Rightarrow> leaf_blocks (child_subnets ! i) sub
         | DictItem c \<Rightarrow> [])"
    | (later) "(k, b) \<in> set (loop_blocks child_subnets (i + 1) rest)"
    by (auto split: if_splits)
  then show ?case
  proof cases
    case here
    have vi: "valid_network (child_subnets ! i)"
      using good_split_nth(1)[OF "3.prems"(1) here(1)] .
    show ?thesis
    proof (cases structure_item)
      case (StrItem s)
      then show ?thesis using here vi by (auto split: if_splits)
    next
      case (ListItem sub)
      then have "(k, b) \<in> set (leaf_blocks (child_subnets ! i) sub)" using here(2) by simp
      from "3.IH"(1)[OF here(1) ListItem vi this] show ?thesis using here(1) by blast
    qed (use here in auto)
  next
    case later
    from "3.IH"(2)[OF "3.prems"(1) later] show ?thesis
      by (meson Suc_leD Suc_eq_plus1 le_trans le_add1)
  qed
qed


lemma blocks_disjoint:
  shows "valid_network parent \<Longrightarrow> disjoint_blocks (map snd (leaf_blocks parent s))"
    and "good_split net cs \<Longrightarrow> disjoint_blocks (map snd (loop_blocks cs i items))"
proof (induction parent s and cs i items arbitrary: and net
    rule: leaf_blocks_loop_blocks.induct)
  case (1 parent_subnet st)
  show ?case
  proof (cases rule: leaf_blocks_cases[of parent_subnet st])
    case 1
    then show ?thesis by (simp add: disjoint_blocks_sorted_wrt)
  next
    case (2 n p cs)
    have "good_split parent_subnet cs" by (rule subnets_good_split[OF "1.prems" 2(3)])
    from "1.IH"[OF 2(1,2,3) this] show ?thesis using 2(4) by simp
  qed
next
  case (2 child_subnets i)
  then show ?case by (simp add: disjoint_blocks_sorted_wrt)
next
  case (3 child_subnets i structure_item rest)
  let ?here = "if i < length child_subnets then
        (case structure_item of
           NoneItem \<Rightarrow> []
         | StrItem s \<Rightarrow> if s = ''__placeholder__'' then [] else [(s, child_subnets ! i)]
         | ListItem sub \<Rightarrow> leaf_blocks (child_subnets ! i) sub
         | DictItem c \<Rightarrow> [])
      else []"
  have later: "disjoint_blocks (map snd (loop_blocks child_subnets (i + 1) rest))"
    by (rule "3.IH"(2)[OF "3.prems"])
  have here_in: "i < length child_subnets \<and> addresses b \<subseteq> addresses (child_subnets ! i)"
    if "(k, b) \<in> set ?here" for k b
  proof -
    have i: "i < length child_subnets" using that by (auto split: if_splits)
    have vi: "valid_network (child_subnets ! i)" by (rule good_split_nth(1)[OF "3.prems" i])
    show ?thesis
    proof (cases structure_item)
      case (ListItem sub)
      then have "(k, b) \<in> set (leaf_blocks (child_subnets ! i) sub)" using that i by simp
      then show ?thesis using blocks_within(1)[OF vi] i by blast
    qed (use that i in \<open>auto split: if_splits\<close>)
  qed
  have here: "disjoint_blocks (map snd ?here)"
  proof (cases "i < length child_subnets")
    case True
    have vi: "valid_network (child_subnets ! i)" by (rule good_split_nth(1)[OF "3.prems" True])
    show ?thesis
    proof (cases structure_item)
      case (ListItem sub)
      then show ?thesis using "3.IH"(1)[OF True ListItem vi] True by simp
    qed (use True in \<open>auto simp: disjoint_blocks_sorted_wrt\<close>)
  next
    case False
    then show ?thesis by (simp add: disjoint_blocks_sorted_wrt)
  qed
  have cross: "addresses b \<inter> addresses b' = {}"
    if "(k, b) \<in> set ?here" "(k', b') \<in> set (loop_blocks child_subnets (i + 1) rest)"
    for k b k' b'
  proof -
    from here_in[OF that(1)] have i: "i < length child_subnets"
      and b: "addresses b \<subseteq> addresses (child_subnets ! i)" by simp_all
    from blocks_within(2)[OF "3.prems" that(2)] obtain j where
      j: "i + 1 \<le> j" "j < length child_subnets" "addresses b' \<subseteq> addresses (child_subnets ! j)"
      by blast
    have "addresses (child_subnets ! i) \<inter> addresses (child_subnets ! j) = {}"
      using good_split_nth(3)[OF "3.prems" i j(2)] j(1) by simp
    then show ?thesis using b j(3) by blast
  qed
  have "disjoint_blocks (map snd ?here @ map snd (loop_blocks child_subnets (i + 1) rest))"
    unfolding disjoint_blocks_sorted_wrt sorted_wrt_append
    using here later cross unfolding disjoint_blocks_sorted_wrt by fastforce
  then show ?case by simp
qed


lemma list_get_Inr: "list_get xs i = Inr x \<longleftrightarrow> i < length xs \<and> x = xs ! i"
  by (auto simp: list_get_def)

lemma compute_rec_success:
  assumes "compute_rec parent s res = (Inr u, res')"
  obtains n p cs where "find_structure_len s = Inr n" "find_prefix n = Inr p"
    "p + prefixlen parent \<le> 32" "subnets parent p = Inr cs"
    "compute_loop cs 0 s res = (Inr u, res')"
  using assms
  by (cases "find_structure_len s"; cases "find_prefix (projr (find_structure_len s))";
      cases "subnets parent (projr (find_prefix (projr (find_structure_len s))))")
     (auto simp: compute_rec.simps split: if_splits)

lemma compute_refines:
  shows "compute_rec parent s res = (Inr u, res') \<Longrightarrow>
           res' = dict_set_all res (leaf_blocks parent s) \<and>
           map fst (leaf_blocks parent s) = leaf_ids s"
    and "compute_loop cs i items res = (Inr u, res') \<Longrightarrow>
           res' = dict_set_all res (loop_blocks cs i items) \<and>
           map fst (loop_blocks cs i items) = leaf_ids items"
proof (induction parent s res and cs i items res arbitrary: res' and res'
    rule: compute_rec_compute_loop.induct)
  case (1 parent_subnet st res)
  from "1.prems" obtain n p cs where
    *: "find_structure_len st = Inr n" "find_prefix n = Inr p"
      "p + prefixlen parent_subnet \<le> 32" "subnets parent_subnet p = Inr cs"
      "compute_loop cs 0 st res = (Inr u, res')"
    by (rule compute_rec_success)
  have "leaf_blocks parent_subnet st = loop_blocks cs 0 st"
    using * by (simp add: leaf_blocks.simps)
  moreover have "\<not> 32 < p + prefixlen parent_subnet" using *(3) by simp
  ultimately show ?case using "1.IH"[OF *(1,2) _ *(4,5)] by simp
next
  case (2 child_subnets i res)
  then show ?case by simp
next
  case (3 child_subnets i structure_item rest res)
  from "3.prems" obtain child where child: "list_get child_subnets i = Inr child"
    by (cases "list_get child_subnets i") auto
  then have i: "i < length child_subnets" and c: "child = child_subnets ! i"
    by (simp_all add: list_get_Inr)
  show ?case
  proof (cases structure_item)
    case NoneItem
    then have "compute_loop child_subnets (i + 1) rest res = (Inr u, res')"
      using "3.prems" child by simp
    from "3.IH"(1)[OF child NoneItem this] show ?thesis using NoneItem i by simp
  next
    case (StrItem x)
    show ?thesis
    proof (cases "x = ''__placeholder__''")
      case True
      then have "compute_loop child_subnets (i + 1) rest res = (Inr u, res')"
        using "3.prems" child StrItem by simp
      from "3.IH"(2)[OF child StrItem True this] show ?thesis using StrItem True i by simp
    next
      case False
      then have "compute_loop child_subnets (i + 1) rest (dict_set res x child) = (Inr u, res')"
        using "3.prems" child StrItem by simp
      from "3.IH"(3)[OF child StrItem False this] show ?thesis using StrItem False i c by simp
    qed
  next
    case (ListItem sub)
    from "3.prems" child ListItem obtain res1 where
      r1: "compute_rec child sub res = (Inr u, res1)"
      and r2: "compute_loop child_subnets (i + 1) rest res1 = (Inr u, res')"
      by (auto split: prod.splits sum.splits)
    from "3.IH"(4)[OF child ListItem r1] "3.IH"(5)[OF child ListItem r1[symmetric] refl r2]
    show ?thesis using ListItem i c by (simp add: leaf_ids_def)
  next
    case (DictItem x4)
    then have "compute_loop child_subnets (i + 1) rest res = (Inr u, res')"
      using "3.prems" child by simp
    from "3.IH"(6)[OF child DictItem this] show ?thesis using DictItem i by simp
  qed
qed

lemma dict_set_fresh: "k \<notin> fst ` set d \<Longrightarrow> dict_set d k v = d @ [(k, v)]"
  by (induction d) auto

lemma dict_set_all_fresh:
  "distinct (map fst kvs) \<Longrightarrow> set (map fst kvs) \<inter> fst ` set d = {} \<Longrightarrow>
   dict_set_all d kvs = d @ kvs"
proof (induction kvs arbitrary: d)
  case Nil
  then show ?case by simp
next
  case (Cons kv kvs)
  have k: "fst kv \<notin> fst ` set d" using Cons.prems(2) by auto
  have "set (map fst kvs) \<inter> fst ` set (d @ [kv]) = {}"
    using Cons.prems by auto
  from Cons.IH[OF _ this] Cons.prems(1) show ?case
    by (simp add: dict_set_fresh[OF k])
qed

lemma map_of_dict_set: "map_of (dict_set d k v) = (map_of d)(k \<mapsto> v)"
  by (induction d) (auto simp: fun_eq_iff)

lemma map_of_dict_set_all: "map_of (dict_set_all d kvs) = map_of d ++ map_of (rev kvs)"
proof (induction kvs arbitrary: d)
  case Nil
  then show ?case by simp
next
  case (Cons kv kvs)
  show ?case
    by (cases kv) (simp add: Cons.IH map_of_dict_set map_add_def fun_eq_iff split: option.splits)
qed

lemma allocation_level:
  assumes v: "valid_network parent" and d: "distinct (leaf_ids s)"
    and fresh: "set (leaf_ids s) \<inter> fst ` set res = {}"
    and ok: "compute_rec parent s res = (Inr u, res')"
  shows "res' = res @ leaf_blocks parent s"
    and "map fst (leaf_blocks parent s) = leaf_ids s"
    and "\<forall>b\<in>set (map snd (leaf_blocks parent s)). valid_network b \<and> addresses b \<subseteq> addresses parent"
    and "disjoint_blocks (map snd (leaf_blocks parent s))"
proof -
  from compute_refines(1)[OF ok] have r: "res' = dict_set_all res (leaf_blocks parent s)"
    and k: "map fst (leaf_blocks parent s) = leaf_ids s" by simp_all
  show "map fst (leaf_blocks parent s) = leaf_ids s" by (rule k)
  show "res' = res @ leaf_blocks parent s"
    unfolding r using d fresh by (intro dict_set_all_fresh) (simp_all add: k)
  show "\<forall>b\<in>set (map snd (leaf_blocks parent s)). valid_network b \<and> addresses b \<subseteq> addresses parent"
    using blocks_within(1)[OF v, of _ _ s] by fastforce
  show "disjoint_blocks (map snd (leaf_blocks parent s))"
    by (rule blocks_disjoint(1)[OF v])
qed

lemmas eval_simps =
  compute_rec.simps find_structure_len_def find_prefix_def upt_rec subnets_def Let_def
  broadcast_address_def hostmask_eq py_range_def drop_bit_eq_div list_get_def

section \<open>The outcome depends on the shape of the structure only\<close>

lemma structure_len_loop_DictItem:
  "structure_len_loop count (DictItem c # rest) =
     (case c of None \<Rightarrow> Inl KeyError | Some n \<Rightarrow> structure_len_loop (count + n) rest)"
  by (cases c) simp_all

lemma structure_len_loop_shape:
  "list_all2 same_shape s t \<Longrightarrow> structure_len_loop c s = structure_len_loop c t"
proof (induction s arbitrary: c t)
  case Nil
  then show ?case by simp
next
  case (Cons x xs)
  then obtain y ys where t: "t = y # ys" and xy: "same_shape x y"
    and rest: "list_all2 same_shape xs ys"
    by (cases t) auto
  show ?case
    using Cons.IH[OF rest] xy unfolding t
    by (cases x; cases y) (simp_all add: structure_len_loop_DictItem split: option.splits)
qed

lemma outcome_shape:
  shows "list_all2 same_shape s t \<Longrightarrow>
           fst (compute_rec parent s res) = fst (compute_rec parent t res2)"
    and "list_all2 same_shape items items2 \<Longrightarrow>
           fst (compute_loop cs i items res) = fst (compute_loop cs i items2 res2)"
proof (induction parent s res and cs i items res arbitrary: t res2 and items2 res2
    rule: compute_rec_compute_loop.induct)
  case (1 parent_subnet st res)
  have len: "find_structure_len st = find_structure_len t"
    unfolding find_structure_len_def by (rule structure_len_loop_shape[OF "1.prems"])
  show ?case
  proof (cases "find_structure_len st")
    case (Inl e)
    then show ?thesis using len by (simp add: compute_rec.simps)
  next
    case n: (Inr n)
    show ?thesis
    proof (cases "find_prefix n")
      case (Inl e)
      then show ?thesis using n len by (simp add: compute_rec.simps)
    next
      case p: (Inr p)
      show ?thesis
      proof (cases "32 < p + prefixlen parent_subnet")
        case True
        then show ?thesis using n p len by (simp add: compute_rec.simps)
      next
        case False
        show ?thesis
        proof (cases "subnets parent_subnet p")
          case (Inl e)
          then show ?thesis using n p len False by (simp add: compute_rec.simps)
        next
          case (Inr cs)
          from "1.IH"[OF n p False Inr "1.prems", of res2]
          show ?thesis using n p len False Inr by (simp add: compute_rec.simps)
        qed
      qed
    qed
  qed
next
  case (2 child_subnets i res)
  then show ?case by simp
next
  case (3 child_subnets i structure_item rest res)
  from "3.prems" obtain it2 rest2 where items2: "items2 = it2 # rest2"
    and sh: "same_shape structure_item it2" and shr: "list_all2 same_shape rest rest2"
    by (cases items2) auto
  show ?case
  proof (cases "list_get child_subnets i")
    case (Inl e)
    then show ?thesis by (simp add: items2)
  next
    case child: (Inr child)
    show ?thesis
    proof (cases structure_item)
      case NoneItem
      then have "it2 = NoneItem" using sh by (cases it2) auto
      then show ?thesis
        using "3.IH"(1)[OF child NoneItem shr, of res2] child NoneItem by (simp add: items2)
    next
      case (StrItem x)
      then obtain y where it2: "it2 = StrItem y"
        and xy: "x = ''__placeholder__'' \<longleftrightarrow> y = ''__placeholder__''"
        using sh by (cases it2) auto
      show ?thesis
      proof (cases "x = ''__placeholder__''")
        case True
        then show ?thesis
          using "3.IH"(2)[OF child StrItem True shr, of res2] child StrItem it2 xy
          by (simp add: items2)
      next
        case False
        then show ?thesis
          using "3.IH"(3)[OF child StrItem False shr, of "dict_set res2 y child"]
            child StrItem it2 xy
          by (simp add: items2)
      qed
    next
      case (ListItem sub)
      then obtain sub2 where it2: "it2 = ListItem sub2"
        and shs: "list_all2 same_shape sub sub2"
        using sh by (cases it2) auto
      obtain r1 m1 where c1: "compute_rec child sub res = (r1, m1)" by (cases "compute_rec child sub res")
      obtain r2 m2 where c2: "compute_rec child sub2 res2 = (r2, m2)" by (cases "compute_rec child sub2 res2")
      have r12: "r1 = r2" using "3.IH"(4)[OF child ListItem shs, of res2] c1 c2 by simp
      show ?thesis
      proof (cases r1)
        case (Inl e)
        then show ?thesis using child ListItem it2 c1 c2 r12 by (simp add: items2)
      next
        case (Inr u)
        have c1': "compute_rec child sub res = (Inr u, m1)" using c1 Inr by simp
        have c2': "compute_rec child sub2 res2 = (Inr u, m2)" using c2 r12 Inr by simp
        from "3.IH"(5)[OF child ListItem c1[symmetric] Inr shr, of m2]
        show ?thesis using child ListItem it2 c1' c2' by (simp add: items2)
      qed
    next
      case (DictItem c)
      then have "it2 = DictItem c" using sh by (cases it2) auto
      then show ?thesis
        using "3.IH"(6)[OF child DictItem shr, of res2] child DictItem by (simp add: items2)
    qed
  qed
qed

lemma same_shape_refl: "same_shape x x"
  by (induction x) (auto simp: list_all2_same split: option.splits)

lemma outcome_independent_of_mapping:
  "fst (compute_rec parent s res) = fst (compute_rec parent s res2)"
  by (rule outcome_shape(1)) (simp add: list_all2_same same_shape_refl)

section \<open>Dictionary assignments\<close>

lemma dict_set_keys_list:
  "map fst (dict_set d k v) = (if k \<in> fst ` set d then map fst d else map fst d @ [k])"
proof (induction d)
  case Nil
  then show ?case by simp
next
  case (Cons p d)
  obtain k' v' where p: "p = (k', v')" by (cases p)
  show ?case using Cons.IH by (force simp: p)
qed

lemma dict_set_keys: "fst ` set (dict_set d k v) = insert k (fst ` set d)"
  by (induction d) force+

lemma dict_set_distinct: "distinct (map fst d) \<Longrightarrow> distinct (map fst (dict_set d k v))"
  by (auto simp: dict_set_keys_list)

lemma dict_set_all_distinct:
  "distinct (map fst d) \<Longrightarrow> distinct (map fst (dict_set_all d kvs))"
  by (induction kvs arbitrary: d) (simp_all add: dict_set_distinct)

lemma dict_set_all_keys:
  "set (map fst (dict_set_all d kvs)) = set (map fst d) \<union> set (map fst kvs)"
proof (induction kvs arbitrary: d)
  case Nil
  then show ?case by simp
next
  case (Cons kv kvs)
  have "fst ` set (dict_set_all (dict_set d (fst kv) (snd kv)) kvs) =
        insert (fst kv) (fst ` set d) \<union> fst ` set kvs"
    using Cons.IH[of "dict_set d (fst kv) (snd kv)"] by (simp add: dict_set_keys)
  then show ?case by auto
qed

lemma map_of_rev_last:
  "map_of (rev xs) k = Some b \<longleftrightarrow> (\<exists>pre post. xs = pre @ (k, b) # post \<and> k \<notin> fst ` set post)"
proof (induction xs rule: rev_induct)
  case Nil
  then show ?case by simp
next
  case (snoc x xs)
  obtain k' b' where x: "x = (k', b')" by (cases x)
  show ?case
  proof (cases "k' = k")
    case True
    have "(\<exists>pre post. xs @ [(k, b')] = pre @ (k, b) # post \<and> k \<notin> fst ` set post) \<longleftrightarrow> b = b'"
    proof
      assume "\<exists>pre post. xs @ [(k, b')] = pre @ (k, b) # post \<and> k \<notin> fst ` set post"
      then obtain pre post where eq: "xs @ [(k, b')] = pre @ (k, b) # post"
        and nk: "k \<notin> fst ` set post" by blast
      show "b = b'"
      proof (cases post rule: rev_cases)
        case Nil
        then show ?thesis using eq by simp
      next
        case (snoc ys y)
        then have "y = (k, b')" using eq by (metis append.assoc append_Cons last_snoc)
        then show ?thesis using nk snoc by force
      qed
    next
      assume "b = b'"
      then have "xs @ [(k, b')] = xs @ (k, b) # [] \<and> k \<notin> fst ` set []" by simp
      then show "\<exists>pre post. xs @ [(k, b')] = pre @ (k, b) # post \<and> k \<notin> fst ` set post" by blast
    qed
    then show ?thesis using True x by auto
  next
    case False
    have "(\<exists>pre post. xs @ [(k', b')] = pre @ (k, b) # post \<and> k \<notin> fst ` set post) \<longleftrightarrow>
          (\<exists>pre post. xs = pre @ (k, b) # post \<and> k \<notin> fst ` set post)"
    proof
      assume "\<exists>pre post. xs @ [(k', b')] = pre @ (k, b) # post \<and> k \<notin> fst ` set post"
      then obtain pre post where eq: "xs @ [(k', b')] = pre @ (k, b) # post"
        and nk: "k \<notin> fst ` set post" by blast
      show "\<exists>pre post. xs = pre @ (k, b) # post \<and> k \<notin> fst ` set post"
      proof (cases post rule: rev_cases)
        case Nil
        then show ?thesis using eq False by simp
      next
        case (snoc ys y)
        then have "xs = pre @ (k, b) # ys" using eq by simp
        moreover have "k \<notin> fst ` set ys" using nk snoc by simp
        ultimately show ?thesis by blast
      qed
    next
      assume "\<exists>pre post. xs = pre @ (k, b) # post \<and> k \<notin> fst ` set post"
      then obtain pre post where "xs = pre @ (k, b) # post" "k \<notin> fst ` set post" by blast
      then have "xs @ [(k', b')] = pre @ (k, b) # (post @ [(k', b')]) \<and>
                 k \<notin> fst ` set (post @ [(k', b')])"
        using False by simp
      then show "\<exists>pre post. xs @ [(k', b')] = pre @ (k, b) # post \<and> k \<notin> fst ` set post" by blast
    qed
    then show ?thesis using False x snoc.IH by simp
  qed
qed

lemma compute_Inr:
  "fst (compute (Calculator cfg dm)) = Inr m \<longleftrightarrow>
     compute_rec (network_cidr cfg) (cfg_structure cfg) [] = (Inr (), m)"
  by (auto simp: compute_def Calculator_def split: prod.splits sum.splits)

section \<open>Exceptions and the mapping they leave behind\<close>

lemma compute_loop_append:
  "compute_loop cs i (xs @ ys) res =
     (case compute_loop cs i xs res of
        (Inl e, r) \<Rightarrow> (Inl e, r)
      | (Inr u, r) \<Rightarrow> compute_loop cs (i + length xs) ys r)"
proof (induction xs arbitrary: i res)
  case Nil
  then show ?case by simp
next
  case (Cons x xs)
  show ?case
  proof (cases "list_get cs i")
    case (Inl e)
    then show ?thesis by simp
  next
    case (Inr child)
    show ?thesis
    proof (cases x)
      case (ListItem sub)
      obtain r1 m1 where c1: "compute_rec child sub res = (r1, m1)"
        by (cases "compute_rec child sub res")
      show ?thesis using Inr ListItem c1 Cons.IH[of "i + 1" m1]
        by (cases r1) (simp_all split: prod.splits sum.splits)
    qed (use Inr Cons.IH[of "i + 1"] in \<open>simp_all split: prod.splits sum.splits\<close>)
  qed
qed

lemma keys_kept:
  shows "fst ` set res \<subseteq> fst ` set (snd (compute_rec parent s res))"
    and "fst ` set res \<subseteq> fst ` set (snd (compute_loop cs i items res))"
proof (induction parent s res and cs i items res rule: compute_rec_compute_loop.induct)
  case (1 parent_subnet st res)
  show ?case
  proof (cases "find_structure_len st")
    case (Inl e)
    then show ?thesis by (simp add: compute_rec.simps)
  next
    case n: (Inr n)
    show ?thesis
    proof (cases "find_prefix n")
      case (Inl e)
      then show ?thesis using n by (simp add: compute_rec.simps)
    next
      case p: (Inr p)
      show ?thesis
      proof (cases "32 < p + prefixlen parent_subnet")
        case True
        then show ?thesis using n p by (simp add: compute_rec.simps)
      next
        case False
        show ?thesis
        proof (cases "subnets parent_subnet p")
          case (Inl e)
          then show ?thesis using n p False by (simp add: compute_rec.simps)
        next
          case (Inr cs)
          from "1.IH"[OF n p False Inr]
          show ?thesis using n p False Inr by (simp add: compute_rec.simps)
        qed
      qed
    qed
  qed
next
  case (2 child_subnets i res)
  then show ?case by simp
next
  case (3 child_subnets i structure_item rest res)
  show ?case
  proof (cases "list_get child_subnets i")
    case (Inl e)
    then show ?thesis by simp
  next
    case child: (Inr child)
    show ?thesis
    proof (cases structure_item)
      case NoneItem
      then show ?thesis using "3.IH"(1)[OF child NoneItem] child by simp
    next
      case (StrItem x)
      show ?thesis
      proof (cases "x = ''__placeholder__''")
        case True
        then show ?thesis using "3.IH"(2)[OF child StrItem True] child StrItem by simp
      next
        case False
        have "fst ` set res \<subseteq> fst ` set (dict_set res x child)" by (auto simp: dict_set_keys)
        then show ?thesis using "3.IH"(3)[OF child StrItem False] child StrItem False by auto
      qed
    next
      case (ListItem sub)
      obtain r1 m1 where c1: "compute_rec child sub res = (r1, m1)"
        by (cases "compute_rec child sub res")
      have k1: "fst ` set res \<subseteq> fst ` set m1" using "3.IH"(4)[OF child ListItem] c1 by simp
      show ?thesis
      proof (cases r1)
        case (Inl e)
        then show ?thesis using child ListItem c1 k1 by simp
      next
        case (Inr u)
        from "3.IH"(5)[OF child ListItem c1[symmetric] Inr]
        show ?thesis using child ListItem c1 k1 Inr by auto
      qed
    next
      case (DictItem c)
      then show ?thesis using "3.IH"(6)[OF child DictItem] child by simp
    qed
  qed
qed

lemma nested_error_propagates:
  assumes "find_structure_len s = Inr n" and "find_prefix n = Inr p"
    and "p + prefixlen parent \<le> 32" and "subnets parent p = Inr cs"
    and s: "s = xs @ ListItem sub # rest"
    and "compute_loop cs 0 xs res = (Inr (), res1)"
    and "list_get cs (length xs) = Inr child"
    and "compute_rec child sub res1 = (Inl e, res2)"
  shows "compute_rec parent s res = (Inl e, res2)"
proof -
  have "compute_loop cs 0 s res = (Inl e, res2)"
    unfolding s using assms(6,7,8) by (simp add: compute_loop_append)
  moreover have "\<not> 32 < p + prefixlen parent" using assms(3) by simp
  ultimately show ?thesis
    using assms(1,2,4) by (simp add: compute_rec.simps[of parent])
qed

section \<open>The split is large enough for the walk\<close>

lemma find_prefix_Inr:
  assumes "find_prefix n = Inr p"
  shows "n \<le> 2 ^ p" and "p < 32"
proof -
  from assms have f: "find (\<lambda>i. n \<le> 2 ^ i) [0 ..< 32] = Some p"
    by (simp add: find_prefix_def split: option.splits)
  then obtain k where "k < 32" "n \<le> 2 ^ ([0 ..< 32] ! k)" "p = [0 ..< 32] ! k"
    unfolding find_Some_iff by auto
  then show "n \<le> 2 ^ p" and "p < 32" by simp_all
qed

lemma structure_len_loop_lower:
  assumes "\<forall>it\<in>set s. \<forall>c. it = DictItem c \<longrightarrow> (\<exists>k\<ge>1. c = Some k)"
    and "structure_len_loop count s = Inr n"
  shows "count + int (length s) \<le> n"
  using assms
proof (induction s arbitrary: count)
  case Nil
  then show ?case by simp
next
  case (Cons x xs)
  have rest: "\<forall>it\<in>set xs. \<forall>c. it = DictItem c \<longrightarrow> (\<exists>k\<ge>1. c = Some k)"
    using Cons.prems(1) by simp
  show ?case
  proof (cases x)
    case (DictItem c)
    then obtain k where k: "c = Some k" "1 \<le> k" using Cons.prems(1) by auto
    then have "structure_len_loop (count + k) xs = Inr n" using Cons.prems(2) DictItem by simp
    from Cons.IH[OF rest this] k show ?thesis by simp
  next
    case NoneItem
    then have "structure_len_loop (count + 1) xs = Inr n" using Cons.prems(2) by simp
    from Cons.IH[OF rest this] show ?thesis by simp
  next
    case (StrItem x2)
    then have "structure_len_loop (count + 1) xs = Inr n" using Cons.prems(2) by simp
    from Cons.IH[OF rest this] show ?thesis by simp
  next
    case (ListItem x3)
    then have "structure_len_loop (count + 1) xs = Inr n" using Cons.prems(2) by simp
    from Cons.IH[OF rest this] show ?thesis by simp
  qed
qed

lemma split_covers_items:
  assumes v: "valid_network parent"
    and c: "\<forall>it\<in>set s. \<forall>c. it = DictItem c \<longrightarrow> (\<exists>k\<ge>1. c = Some k)"
    and n: "find_structure_len s = Inr n" and p: "find_prefix n = Inr p"
    and le: "p + prefixlen parent \<le> 32" and cs: "subnets parent p = Inr cs"
  shows "length cs = 2 ^ p" and "int (length s) \<le> n" and "length s \<le> length cs"
proof -
  have le': "prefixlen parent + p \<le> 32" using le by simp
  show l: "length cs = 2 ^ p" by (rule subnets_nth(1)[OF v le' cs])
  show ln: "int (length s) \<le> n"
    using structure_len_loop_lower[OF c n[unfolded find_structure_len_def]] by simp
  have "n \<le> 2 ^ p" by (rule find_prefix_Inr(1)[OF p])
  then have "int (length s) \<le> 2 ^ p" using ln by linarith
  then have "int (length s) \<le> int (2 ^ p)" by (simp only: of_nat_power of_nat_numeral)
  then show "length s \<le> length cs" unfolding l of_nat_le_iff .
qed

lemma counts_ok_level:
  assumes "list_all counts_ok s"
  shows "\<forall>it\<in>set s. \<forall>c. it = DictItem c \<longrightarrow> (\<exists>k\<ge>1. c = Some k)"
  using assms by (auto simp: list_all_iff split: option.splits)

lemma counts_ok_len:
  assumes "list_all counts_ok s"
  shows "\<exists>n. structure_len_loop count s = Inr n"
  using assms
proof (induction s arbitrary: count)
  case Nil
  then show ?case by simp
next
  case (Cons x xs)
  then show ?case by (cases x) (auto split: option.splits)
qed

lemma no_index_error:
  shows "valid_network parent \<Longrightarrow> list_all counts_ok s \<Longrightarrow>
           fst (compute_rec parent s res) \<noteq> Inl IndexError"
    and "good_split net cs \<Longrightarrow> list_all counts_ok items \<Longrightarrow> i + length items \<le> length cs \<Longrightarrow>
           fst (compute_loop cs i items res) \<noteq> Inl IndexError"
proof (induction parent s res and cs i items res arbitrary: and net
    rule: compute_rec_compute_loop.induct)
  case (1 parent_subnet st res)
  obtain n where n: "find_structure_len st = Inr n"
    using counts_ok_len[OF "1.prems"(2)] unfolding find_structure_len_def by blast
  show ?case
  proof (cases "find_prefix n")
    case (Inl e)
    then have "e = ValueError_CannotFindPrefix n"
      by (simp add: find_prefix_def split: option.splits)
    then show ?thesis using n Inl by (simp add: compute_rec.simps)
  next
    case p: (Inr p)
    show ?thesis
    proof (cases "32 < p + prefixlen parent_subnet")
      case True
      then show ?thesis using n p by (simp add: compute_rec.simps)
    next
      case False
      then have le: "prefixlen parent_subnet + p \<le> 32" by simp
      from subnets_eq[OF "1.prems"(1) le] obtain cs where cs: "subnets parent_subnet p = Inr cs"
        by blast
      have gs: "good_split parent_subnet cs" by (rule subnets_good_split[OF "1.prems"(1) cs])
      have "length st \<le> length cs"
        using split_covers_items(3)[OF "1.prems"(1) counts_ok_level[OF "1.prems"(2)] n p _ cs] le
        by simp
      then have "0 + length st \<le> length cs" by simp
      from "1.IH"[OF n p False cs gs "1.prems"(2) this]
      show ?thesis using n p False cs by (simp add: compute_rec.simps)
    qed
  qed
next
  case (2 child_subnets i res)
  then show ?case by simp
next
  case (3 child_subnets i structure_item rest res)
  have i: "i < length child_subnets" using "3.prems"(3) by simp
  then have child: "list_get child_subnets i = Inr (child_subnets ! i)"
    by (simp add: list_get_def)
  let ?child = "child_subnets ! i"
  have okr: "list_all counts_ok rest" using "3.prems"(2) by simp
  have lr: "i + 1 + length rest \<le> length child_subnets" using "3.prems"(3) by simp
  show ?case
  proof (cases structure_item)
    case NoneItem
    then show ?thesis using "3.IH"(1)[OF child NoneItem "3.prems"(1) okr lr] child by simp
  next
    case (StrItem x)
    show ?thesis
    proof (cases "x = ''__placeholder__''")
      case True
      then show ?thesis
        using "3.IH"(2)[OF child StrItem True "3.prems"(1) okr lr] child StrItem by simp
    next
      case False
      then show ?thesis
        using "3.IH"(3)[OF child StrItem False "3.prems"(1) okr lr] child StrItem by simp
    qed
  next
    case (ListItem sub)
    have vs: "valid_network ?child" by (rule good_split_nth(1)[OF "3.prems"(1) i])
    have oks: "list_all counts_ok sub" using "3.prems"(2) ListItem by simp
    obtain r1 m1 where c1: "compute_rec ?child sub res = (r1, m1)"
      by (cases "compute_rec ?child sub res")
    have n1: "r1 \<noteq> Inl IndexError" using "3.IH"(4)[OF child ListItem vs oks] c1 by simp
    show ?thesis
    proof (cases r1)
      case (Inl e)
      then show ?thesis using child ListItem c1 n1 by simp
    next
      case (Inr u)
      from "3.IH"(5)[OF child ListItem c1[symmetric] Inr "3.prems"(1) okr lr]
      show ?thesis using child ListItem c1 Inr by simp
    qed
  next
    case (DictItem c)
    then show ?thesis using "3.IH"(6)[OF child DictItem "3.prems"(1) okr lr] child by simp
  qed
qed

section \<open>Proper parts of a split\<close>

lemma subnets_child_proper:
  assumes v: "valid_network net" and le: "prefixlen net + d \<le> 32" and d: "1 \<le> d"
    and cs: "subnets net d = Inr cs" and k: "k < length cs"
  shows "addresses (cs ! k) \<subset> addresses net"
proof -
  let ?a = "network_address net"
  let ?s = "(2::nat) ^ (32 - (prefixlen net + d))"
  have size: "(2::nat) ^ (32 - prefixlen net) = 2 ^ d * ?s"
    using le by (simp flip: power_add)
  have "(2::nat) ^ 1 \<le> 2 ^ d" using d by (intro power_increasing) simp_all
  then have two: "2 * ?s \<le> 2 ^ d * ?s" by (intro mult_le_mono1) simp
  have pos: "0 < ?s" by simp
  have sub: "addresses (cs ! k) \<subseteq> addresses net" by (rule subnets_child(2)[OF v le cs k])
  have child: "addresses (cs ! k) =
      {x. ?a + k * ?s \<le> x \<and> x < ?a + (k + 1) * ?s}"
    by (rule subnets_child(3)[OF v le cs k])
  have parent: "addresses net = {x. ?a \<le> x \<and> x < ?a + 2 ^ d * ?s}"
    unfolding addresses_def size ..
  have "\<exists>x. x \<in> addresses net \<and> x \<notin> addresses (cs ! k)"
  proof (cases "k = 0")
    case True
    have "?a + ?s \<in> addresses net" unfolding parent using two pos by simp
    moreover have "?a + ?s \<notin> addresses (cs ! k)" unfolding child using True by simp
    ultimately show ?thesis by blast
  next
    case False
    then have "?s \<le> k * ?s" by simp
    then have "?a \<notin> addresses (cs ! k)" unfolding child using pos by simp
    moreover have "?a \<in> addresses net" unfolding parent using two pos by simp
    ultimately show ?thesis by blast
  qed
  then show ?thesis using sub by blast
qed

lemma level_strict:
  assumes v: "valid_network parent" and ok: "compute_rec parent s res = (Inr u, res')"
    and n: "find_structure_len s = Inr n" and two: "2 \<le> n"
    and mem: "(k, b) \<in> set (leaf_blocks parent s)"
  shows "addresses b \<subset> addresses parent"
proof -
  from ok obtain n' p cs where *: "find_structure_len s = Inr n'" "find_prefix n' = Inr p"
      "p + prefixlen parent \<le> 32" "subnets parent p = Inr cs"
    by (rule compute_rec_success)
  have n': "n' = n" using n *(1) by simp
  have "n \<le> 2 ^ p" using find_prefix_Inr(1)[OF *(2)] n' by simp
  then have p: "1 \<le> p" using two by (cases "p = 0") simp_all
  have le: "prefixlen parent + p \<le> 32" using *(3) by simp
  have lb: "leaf_blocks parent s = loop_blocks cs 0 s"
    using * by (simp add: leaf_blocks.simps)
  have gs: "good_split parent cs" by (rule subnets_good_split[OF v *(4)])
  from blocks_within(2)[OF gs mem[unfolded lb]] obtain j where
    j: "j < length cs" "addresses b \<subseteq> addresses (cs ! j)" by blast
  from subnets_child_proper[OF v le p *(4) j(1)] j(2) show ?thesis by blast
qed

section \<open>Printing and parsing addresses\<close>

lemma digit_cases:
  assumes "d < (10::nat)"
  obtains "d = 0" | "d = 1" | "d = 2" | "d = 3" | "d = 4" | "d = 5" | "d = 6" | "d = 7"
    | "d = 8" | "d = 9"
proof -
  have "d = 0 \<or> d = 1 \<or> d = 2 \<or> d = 3 \<or> d = 4 \<or> d = 5 \<or> d = 6 \<or> d = 7 \<or> d = 8 \<or> d = 9"
    using assms by presburger
  then show ?thesis using that by blast
qed

lemma digit_char:
  assumes "d < 10"
  shows "isdigit (''0123456789'' ! d)" and "digit_value (''0123456789'' ! d) = d"
    and "''0123456789'' ! d \<noteq> CHR ''.''" and "''0123456789'' ! d \<noteq> CHR ''/''"
    and "''0123456789'' ! d = CHR ''0'' \<longleftrightarrow> d = 0"
  using assms by (cases d rule: digit_cases; simp add: isdigit_def digit_value_def)+

lemma str_nat_digits: "list_all isdigit (str_nat n)"
proof (induction n rule: str_nat.induct)
  case (1 n)
  show ?case
  proof (cases "n < 10")
    case True
    then show ?thesis by (simp add: str_nat.simps[of n] digit_char(1))
  next
    case False
    then show ?thesis using "1.IH" by (simp add: str_nat.simps[of n] digit_char(1))
  qed
qed

lemma str_nat_nonempty: "str_nat n \<noteq> []"
  by (subst str_nat.simps) simp

lemma int_of_str_snoc: "int_of_str (s @ [c]) = 10 * int_of_str s + digit_value c"
  by (simp add: int_of_str_def)

lemma int_of_str_str_nat: "int_of_str (str_nat n) = n"
proof (induction n rule: str_nat.induct)
  case (1 n)
  show ?case
  proof (cases "n < 10")
    case True
    then show ?thesis by (simp add: str_nat.simps[of n] int_of_str_def digit_char(2))
  next
    case False
    then show ?thesis
      using "1.IH" by (simp add: str_nat.simps[of n] int_of_str_snoc digit_char(2))
  qed
qed

lemma str_nat_hd: "hd (str_nat n) = CHR ''0'' \<longleftrightarrow> n = 0"
proof (induction n rule: str_nat.induct)
  case (1 n)
  show ?case
  proof (cases "n < 10")
    case True
    then show ?thesis by (simp add: str_nat.simps[of n] digit_char(5))
  next
    case False
    then have "n div 10 \<noteq> 0" by simp
    then show ?thesis
      using "1.IH" False by (simp add: str_nat.simps[of n] str_nat_nonempty)
  qed
qed

lemma str_nat_length: "n < 1000 \<Longrightarrow> length (str_nat n) \<le> 3"
proof -
  assume n: "n < 1000"
  have l1: "length (str_nat m) = 1" if "m < 10" for m
    using that by (simp add: str_nat.simps[of m])
  have l2: "length (str_nat m) \<le> 2" if "m < 100" for m
    using that l1[of "m div 10"] by (subst str_nat.simps) (auto simp: l1)
  show ?thesis
    using n l2[of "n div 10"] by (subst str_nat.simps) (auto simp: l1)
qed

lemma isdigit_no_sep: "isdigit c \<Longrightarrow> c \<noteq> CHR ''.'' \<and> c \<noteq> CHR ''/''"
  unfolding isdigit_def by fastforce

lemma str_nat_no_sep:
  "CHR ''.'' \<notin> set (str_nat n)" "CHR ''/'' \<notin> set (str_nat n)"
proof -
  have "\<forall>c\<in>set (str_nat n). isdigit c"
    using str_nat_digits[of n] by (simp only: list_all_iff)
  then show "CHR ''.'' \<notin> set (str_nat n)" "CHR ''/'' \<notin> set (str_nat n)"
    using isdigit_no_sep by blast+
qed

lemma parse_octet_str_nat:
  assumes "n < 256"
  shows "parse_octet (str_nat n) = Inr n"
proof -
  have "length (str_nat n) \<le> 3" using assms by (intro str_nat_length) simp
  moreover have "str_nat n \<noteq> ''0'' \<longrightarrow> hd (str_nat n) \<noteq> CHR ''0''"
  proof (cases "n = 0")
    case True
    then show ?thesis by (simp add: str_nat.simps[of 0])
  next
    case False
    then show ?thesis by (simp add: str_nat_hd)
  qed
  ultimately show ?thesis
    using assms by (auto simp: parse_octet_def str_nat_nonempty str_nat_digits int_of_str_str_nat)
qed

lemma split_on_nonempty: "split_on c s \<noteq> []"
  by (induction s) (auto split: list.splits)

lemma split_on_none: "c \<notin> set a \<Longrightarrow> split_on c a = [a]"
  by (induction a) (auto split: list.splits)

lemma split_on_first: "c \<notin> set a \<Longrightarrow> split_on c (a @ c # rest) = a # split_on c rest"
  by (induction a) (auto split: list.splits simp: split_on_nonempty)

lemma from_bytes_to_bytes4:
  assumes "a < 2 ^ 32"
  shows "from_bytes (to_bytes4 a) = a"
proof -
  define q1 where "q1 = a div 256"
  define q2 where "q2 = q1 div 256"
  define q3 where "q3 = q2 div 256"
  have e8: "a div 2 ^ 8 = q1" by (simp add: q1_def)
  have "a div (256 * 256) = q2" unfolding q2_def q1_def by (rule div_mult2_eq)
  then have e16: "a div 2 ^ 16 = q2" by simp
  have "a div (256 * 256 * 256) = q3"
    unfolding q3_def q2_def q1_def by (simp only: div_mult2_eq)
  then have e24: "a div 2 ^ 24 = q3" by simp
  have "a < 256 * (256 * (256 * 256))" using assms by simp
  then have "q1 < 256 * (256 * 256)" unfolding q1_def by (simp only: less_mult_imp_div_less mult.commute)
  then have "q2 < 256 * 256" unfolding q2_def by (simp only: less_mult_imp_div_less mult.commute)
  then have "q3 < 256" unfolding q3_def by (simp only: less_mult_imp_div_less mult.commute)
  then have m3: "q3 mod 256 = q3" by simp
  have s1: "q1 * 256 + a mod 256 = a" unfolding q1_def by simp
  have s2: "q2 * 256 + q1 mod 256 = q1" unfolding q2_def by simp
  have s3: "q3 * 256 + q2 mod 256 = q2" unfolding q3_def by simp
  have "from_bytes (to_bytes4 a) = ((q3 * 256 + q2 mod 256) * 256 + q1 mod 256) * 256 + a mod 256"
    unfolding from_bytes_def to_bytes4_def e8 e16 e24 m3 by simp
  also have "\<dots> = a" unfolding s3 s2 s1 ..
  finally show ?thesis .
qed

lemma collect_parse_octets:
  "\<forall>b\<in>set bs. b < 256 \<Longrightarrow> collect (map parse_octet (map str_nat bs)) = Inr bs"
  by (induction bs) (simp_all add: parse_octet_str_nat)

lemma split_address_compressed:
  "split_on CHR ''.'' (address_compressed a) = map str_nat (to_bytes4 a)"
  by (simp add: address_compressed_def to_bytes4_def split_on_first split_on_none str_nat_no_sep)

lemma address_compressed_nonempty: "address_compressed a \<noteq> []"
  by (simp add: address_compressed_def to_bytes4_def str_nat_nonempty)

lemma address_compressed_no_slash: "CHR ''/'' \<notin> set (address_compressed a)"
  by (simp add: address_compressed_def to_bytes4_def str_nat_no_sep)

lemma ip_int_from_string_compressed:
  assumes "a < 2 ^ 32"
  shows "ip_int_from_string (address_compressed a) = Inr a"
proof -
  have "\<forall>b\<in>set (to_bytes4 a). b < 256" by (simp add: to_bytes4_def)
  then have "collect (map parse_octet (map str_nat (to_bytes4 a))) = Inr (to_bytes4 a)"
    by (rule collect_parse_octets)
  moreover have "length (to_bytes4 a) = 4" by (simp add: to_bytes4_def)
  ultimately show ?thesis
    using from_bytes_to_bytes4[OF assms]
    by (simp add: ip_int_from_string_def address_compressed_nonempty split_address_compressed)
qed

lemma IPv4Address_of_str_compressed:
  "a < 2 ^ 32 \<Longrightarrow> IPv4Address_of_str (address_compressed a) = Inr a"
  by (simp add: IPv4Address_of_str_def address_compressed_no_slash ip_int_from_string_compressed)

lemma prefix_from_prefix_string_str_nat:
  "p \<le> 32 \<Longrightarrow> prefix_from_prefix_string (str_nat p) = Inr p"
  by (simp add: prefix_from_prefix_string_def str_nat_nonempty str_nat_digits int_of_str_str_nat)

lemma make_netmask_str_nat:
  "p \<le> 32 \<Longrightarrow> make_netmask (str_nat p) = Inr p"
  by (simp add: make_netmask_def prefix_from_prefix_string_str_nat)

lemma host_bits_zero:
  assumes "valid_network net"
  shows "network_address net AND netmask net = network_address net"
proof -
  let ?a = "network_address net"
  let ?k = "32 - prefixlen net"
  have low: "take_bit ?k ?a = 0"
    using assms by (simp add: valid_network_def take_bit_eq_mod)
  have high: "take_bit 32 ?a = ?a"
    using assms by (simp add: valid_network_def take_bit_nat_eq_self)
  have nm: "netmask net = mask 32 XOR mask ?k"
    by (simp add: netmask_def ALL_ONES_mask drop_bit_mask_eq)
  have "?a AND netmask net = (?a AND mask 32) XOR (?a AND mask ?k)"
    unfolding nm by (rule bit_eqI) (auto simp: bit_simps)
  also have "\<dots> = ?a" using low high by (simp add: take_bit_eq_mask)
  finally show ?thesis .
qed

lemma IPv4Network_of_str_compressed:
  assumes "valid_network net"
  shows "IPv4Network_of_str (network_compressed net) = Inr net"
proof -
  have a: "network_address net < 2 ^ 32" and p: "prefixlen net \<le> 32"
    using assms by (simp_all add: valid_network_def)
  have sp: "split_on CHR ''/'' (network_compressed net) =
      [address_compressed (network_address net), str_nat (prefixlen net)]"
    by (simp add: network_compressed_def split_on_first split_on_none
        address_compressed_no_slash str_nat_no_sep)
  have rec: "\<lparr>network_address = network_address net, prefixlen = prefixlen net\<rparr> = net" by simp
  show ?thesis
    unfolding IPv4Network_of_str_def sp
    using host_bits_zero[OF assms]
    by (simp add: IPv4Address_of_str_compressed[OF a] make_netmask_str_nat[OF p]
        rec Let_def)
qed

section \<open>The records of the exporter\<close>

lemma network_le_broadcast:
  assumes "valid_network net"
  shows "network_address net \<le> broadcast_address net"
proof -
  have "(1::nat) \<le> 2 ^ (32 - prefixlen net)" by simp
  then show ?thesis unfolding broadcast_address_eq[OF assms] by linarith
qed

lemma network_getitem_first:
  assumes "valid_network net"
  shows "network_getitem net 0 = Inr (network_address net)"
proof -
  have "network_address net \<le> broadcast_address net"
    by (rule network_le_broadcast[OF assms])
  moreover have "network_address net \<le> ALL_ONES"
    using assms by (simp add: valid_network_def ALL_ONES_def)
  ultimately show ?thesis
    by (simp add: network_getitem_def IPv4Address_def Let_def)
qed

lemma network_getitem_last:
  assumes "valid_network net"
  shows "network_getitem net (- 1) = Inr (broadcast_address net)"
proof -
  have "network_address net \<le> broadcast_address net"
    by (rule network_le_broadcast[OF assms])
  moreover have "broadcast_address net \<le> ALL_ONES"
    using broadcast_address_eq[OF assms] valid_network_top[OF assms]
    by (simp add: ALL_ONES_def)
  ultimately show ?thesis
    by (simp add: network_getitem_def IPv4Address_def Let_def)
qed

lemma addresses_interval:
  "addresses net = {network_address net ..< network_address net + 2 ^ (32 - prefixlen net)}"
  by (auto simp: addresses_def)

lemma block_bounds:
  assumes "valid_network net"
  shows "network_getitem net 0 = Inr (Min (addresses net))"
    and "network_getitem net (- 1) = Inr (Max (addresses net))"
proof -
  let ?a = "network_address net"
  let ?n = "(2::nat) ^ (32 - prefixlen net)"
  have ne: "?a < ?a + ?n" by simp
  have "Min (addresses net) = ?a"
    unfolding addresses_interval using ne by (simp add: Min_eq_iff)
  then show "network_getitem net 0 = Inr (Min (addresses net))"
    using network_getitem_first[OF assms] by simp
  have one: "1 \<le> ?n" by simp
  have suc: "?a + ?n = Suc (?a + ?n - 1)" using one by linarith
  have "addresses net = {?a ..< Suc (?a + ?n - 1)}"
    unfolding addresses_interval using suc by simp
  then have "addresses net = {?a .. ?a + ?n - 1}"
    by (simp only: atLeastLessThanSuc_atLeastAtMost)
  moreover have le: "?a \<le> ?a + ?n - 1" using one by linarith
  have "Max {?a .. ?a + ?n - 1} = ?a + ?n - 1"
    by (rule Max_eqI) (use le in simp_all)
  ultimately have "Max (addresses net) = ?a + ?n - 1" by simp
  then show "network_getitem net (- 1) = Inr (Max (addresses net))"
    using network_getitem_last[OF assms] broadcast_address_eq[OF assms] by simp
qed

lemma block_min_max:
  assumes "valid_network net"
  shows "network_address net = Min (addresses net)"
    and "broadcast_address net = Max (addresses net)"
  using block_bounds[OF assms] network_getitem_first[OF assms] network_getitem_last[OF assms]
  by simp_all

lemma build_data_loop_records:
  assumes "build_data_loop cfg dm plan data = Inr data'"
    and "\<forall>net\<in>snd ` set plan. valid_network net"
  shows "\<exists>new. data' = data @ new \<and>
      map (\<lambda>info. (info_id info, info_cidr info)) new = plan \<and>
      (\<forall>info\<in>set new. valid_network (info_cidr info) \<and>
         first_address info = address_compressed (network_address (info_cidr info)) \<and>
         last_address info = address_compressed (broadcast_address (info_cidr info)))"
  using assms
proof (induction plan arbitrary: data)
  case Nil
  then show ?case by simp
next
  case (Cons entry plan)
  obtain subnet_id subnet_cidr where entry: "entry = (subnet_id, subnet_cidr)" by (cases entry)
  have v: "valid_network subnet_cidr" using Cons.prems(2) entry by simp
  have rest: "\<forall>net\<in>snd ` set plan. valid_network net" using Cons.prems(2) by simp
  let ?md = "case metadata cfg subnet_id of Some m \<Rightarrow> m | None \<Rightarrow> dm"
  from Cons.prems(1) obtain nm d where nm: "md_name ?md = Some nm"
    and d: "md_description ?md = Some d"
    unfolding entry
    by (auto simp: Let_def network_getitem_first[OF v] network_getitem_last[OF v]
        split: option.splits)
  let ?info = "\<lparr>info_id = subnet_id,
                 info_name = (if 0 < length nm then nm else subnet_id),
                 info_description = d,
                 info_cidr = subnet_cidr,
                 first_address = address_compressed (network_address subnet_cidr),
                 last_address = address_compressed (broadcast_address subnet_cidr)\<rparr>"
  have step: "build_data_loop cfg dm plan (data @ [?info]) = Inr data'"
    using Cons.prems(1) nm d unfolding entry
    by (simp add: Let_def network_getitem_first[OF v] network_getitem_last[OF v])
  from Cons.IH[OF step rest] obtain new where n1: "data' = (data @ [?info]) @ new"
    and n2: "map (\<lambda>info. (info_id info, info_cidr info)) new = plan"
    and n3: "\<forall>info\<in>set new. valid_network (info_cidr info) \<and>
         first_address info = address_compressed (network_address (info_cidr info)) \<and>
         last_address info = address_compressed (broadcast_address (info_cidr info))"
    by (elim exE conjE)
  have c1: "data' = data @ (?info # new)" using n1 by simp
  have c2: "map (\<lambda>info. (info_id info, info_cidr info)) (?info # new) = entry # plan"
    unfolding entry using n2 by simp
  have c3: "\<forall>info\<in>set (?info # new). valid_network (info_cidr info) \<and>
         first_address info = address_compressed (network_address (info_cidr info)) \<and>
         last_address info = address_compressed (broadcast_address (info_cidr info))"
    using n3 v by simp
  show ?case
    by (rule exI[of _ "?info # new"]) (intro conjI c1 c2 c3)
qed

lemma collect_Inr: "collect (map (\<lambda>x. Inr (f x)) xs) = Inr (map f xs)"
  by (induction xs) simp_all

lemma Exporter_records:
  assumes v: "\<forall>net\<in>snd ` set plan. valid_network net" and ex: "Exporter cfg plan dm = Inr ex"
  shows "exp_config ex = cfg"
    and "map (\<lambda>info. (info_id info, info_cidr info)) (exp_data ex) = plan"
    and "\<forall>info\<in>set (exp_data ex). valid_network (info_cidr info) \<and>
         first_address info = address_compressed (network_address (info_cidr info)) \<and>
         last_address info = address_compressed (broadcast_address (info_cidr info))"
proof -
  let ?dm = "case dm of Some d \<Rightarrow> d
           | None \<Rightarrow> \<lparr>md_name = Some [], md_description = Some ''---'', md_tier = Some ''---''\<rparr>"
  from ex obtain data where loop: "build_data_loop cfg ?dm plan [] = Inr data"
    and d: "exp_data ex = data" and c: "exp_config ex = cfg"
    by (auto simp: Exporter_def build_data_def split: sum.splits)
  show "exp_config ex = cfg" by (rule c)
  from build_data_loop_records[OF loop v]
  show "map (\<lambda>info. (info_id info, info_cidr info)) (exp_data ex) = plan"
    and "\<forall>info\<in>set (exp_data ex). valid_network (info_cidr info) \<and>
         first_address info = address_compressed (network_address (info_cidr info)) \<and>
         last_address info = address_compressed (broadcast_address (info_cidr info))"
    unfolding d by auto
qed

lemma plan_of_form_to_dict:
  assumes v: "\<forall>net\<in>snd ` set plan. valid_network net" and ex: "Exporter cfg plan dm = Inr ex"
  shows "plan_of_form (to_dict ex) = Inr plan"
proof -
  note R = Exporter_records[OF v ex]
  have "map (\<lambda>d. case IPv4Network_of_str (d_cidr d) of
                    Inl e \<Rightarrow> Inl e
                  | Inr net \<Rightarrow> Inr (d_id d, net)) (d_subnets (to_dict ex)) =
        map (\<lambda>info. Inr (info_id info, info_cidr info)) (exp_data ex)"
    using R(3) by (simp add: to_dict_def IPv4Network_of_str_compressed)
  then have "plan_of_form (to_dict ex) =
      Inr (map (\<lambda>info. (info_id info, info_cidr info)) (exp_data ex))"
    unfolding plan_of_form_def by (simp only: collect_Inr)
  then show ?thesis using R(2) by simp
qed

section \<open>find_prefix\<close>

lemma find_prefix_Some:
  assumes "value \<le> 2 ^ 31"
  shows "\<exists>p. find_prefix value = Inr p \<and> p < 32 \<and> value \<le> 2 ^ p \<and>
           (\<forall>q. value \<le> 2 ^ q \<longrightarrow> p \<le> q)"
proof -
  let ?P = "\<lambda>i::nat. value \<le> 2 ^ i"
  have "?P 31" using assms by simp
  then have "\<exists>x\<in>set [0 ..< 32]. ?P x" by (intro bexI[of _ 31]) auto
  then have "find ?P [0 ..< 32] \<noteq> None"
    unfolding find_None_iff by blast
  then obtain p where p: "find ?P [0 ..< 32] = Some p" by blast
  then obtain k where k: "k < 32" "?P ([0 ..< 32] ! k)" "p = [0 ..< 32] ! k"
      "\<forall>j<k. \<not> ?P ([0 ..< 32] ! j)"
    unfolding find_Some_iff by auto
  have pk: "p = k" using k(1,3) by simp
  have least: "p \<le> q" if "?P q" for q
  proof (rule ccontr)
    assume "\<not> p \<le> q"
    then have "q < k" "q < 32" using pk k(1) by auto
    then have "\<not> ?P ([0 ..< 32] ! q)" using k(4) by blast
    then show False using that \<open>q < 32\<close> by simp
  qed
  show ?thesis using p k(1,2) pk least by (auto simp: find_prefix_def)
qed

lemma find_prefix_None:
  assumes "2 ^ 31 < value"
  shows "find_prefix value = Inl (ValueError_CannotFindPrefix value)"
proof -
  have "\<not> value \<le> 2 ^ i" if "i < 32" for i :: nat
  proof -
    have "(2::int) ^ i \<le> 2 ^ 31" using that by (intro power_increasing) auto
    then show ?thesis using assms by linarith
  qed
  then have "find (\<lambda>i. value \<le> 2 ^ i) [0 ..< 32] = None"
    by (auto simp: find_None_iff)
  then show ?thesis by (simp add: find_prefix_def)
qed

text \<open>
  Claim C3, as stated, asks \<open>find_prefix\<close> to return the least \<open>p\<close> with \<open>n \<le> 2 ^ p\<close> for
  every \<open>n\<close> from \<open>0\<close> to \<open>2 ^ 32\<close>.  At \<open>n = 2 ^ 32\<close> such a \<open>p\<close> exists (\<open>p = 32\<close>), but the
  loop only tries \<open>0, \<dots>, 31\<close> and raises.
\<close>

theorem find_prefix_counterexample:
  "(0::int) \<le> 2 ^ 32 \<and> (2::int) ^ 32 \<le> 2 ^ 32 \<and>
   find_prefix (2 ^ 32) = Inl (ValueError_CannotFindPrefix (2 ^ 32))"
  using find_prefix_None[of "2 ^ 32"] by simp

text \<open>
  Claim C3, amended: for every \<open>n \<le> 2 ^ 31\<close>, \<open>find_prefix n\<close> returns the least \<open>p\<close> with
  \<open>n \<le> 2 ^ p\<close>; for every \<open>n > 2 ^ 31\<close> it raises the \<^verbatim>\<open>ValueError\<close> "Cannot find prefix";
  and \<open>find_prefix 0 = 0\<close>, \<open>find_prefix 1 = 0\<close>, \<open>find_prefix 2 = 1\<close>, \<open>find_prefix 3 = 2\<close>.
\<close>

theorem find_prefix_spec:
  "(value \<le> 2 ^ 31 \<longrightarrow>
      (\<exists>p. find_prefix value = Inr p \<and> value \<le> 2 ^ p \<and> (\<forall>q. value \<le> 2 ^ q \<longrightarrow> p \<le> q))) \<and>
   (2 ^ 31 < value \<longrightarrow> find_prefix value = Inl (ValueError_CannotFindPrefix value)) \<and>
   find_prefix 0 = Inr 0 \<and> find_prefix 1 = Inr 0 \<and> find_prefix 2 = Inr 1 \<and>
   find_prefix 3 = Inr 2"
proof -
  have "find_prefix 0 = Inr 0" "find_prefix 1 = Inr 0" "find_prefix 2 = Inr 1"
      "find_prefix 3 = Inr 2"
    by (simp_all add: find_prefix_def upt_rec)
  then show ?thesis using find_prefix_Some[of "value"] find_prefix_None[of "value"] by blast
qed

theorem find_prefix_spec_witness:
  "(5::int) \<le> 2 ^ 31 \<and>
   (\<exists>p. find_prefix 5 = Inr p \<and> 5 \<le> (2::int) ^ p \<and> (\<forall>q. 5 \<le> (2::int) ^ q \<longrightarrow> p \<le> q)) \<and>
   (2::int) ^ 31 < 2 ^ 31 + 1 \<and>
   find_prefix (2 ^ 31 + 1) = Inl (ValueError_CannotFindPrefix (2 ^ 31 + 1))"
  using find_prefix_spec[of 5] find_prefix_spec[of "2 ^ 31 + 1"] by simp

section \<open>The allocation invariant\<close>

text \<open>
  Claim C2, as stated, makes every assigned block a strict descendant of the root
  block.  A structure with a single slot needs no prefix bit, the split returns the
  parent itself, and the leaf is given the root block.
\<close>

theorem allocation_strict_counterexample:
  "valid_network \<lparr>network_address = 167772160, prefixlen = 8\<rparr> \<and>
   distinct (leaf_ids [StrItem ''a'']) \<and>
   fst (compute (Calculator
     \<lparr>network_cidr = \<lparr>network_address = 167772160, prefixlen = 8\<rparr>, metadata = Map.empty,
      cfg_structure = [StrItem ''a'']\<rparr> None)) =
     Inr [(''a'', \<lparr>network_address = 167772160, prefixlen = 8\<rparr>)] \<and>
   \<not> addresses \<lparr>network_address = 167772160, prefixlen = 8\<rparr>
       \<subset> addresses \<lparr>network_address = 167772160, prefixlen = 8\<rparr>"
  by (simp add: valid_network_def leaf_ids_def compute_def Calculator_def eval_simps)

text \<open>
  Claim C2, amended: whenever allocation succeeds on a valid block with pairwise
  distinct leaf identifiers, the entries added to the mapping are exactly one per leaf,
  in pre-order; the assigned blocks are valid networks that pairwise share no address;
  every assigned block is a subset of the block being split; and it is a proper subset
  of that block, a strict descendant, whenever the structure being allocated has a slot
  count of at least two.  Only a level with a single slot is not split, and there the
  item is given the block of the level itself.  The first half of the statement is about
  \<open>compute_rec\<close> on any parent block and any mapping whose keys are not leaves of the
  structure, so it holds at the root and at the call made for every nested list with
  that list's own block; the second half is the mapping returned by \<open>compute\<close> and the
  root block.  That placeholder counts are at least one is not needed once allocation is
  known to succeed.
\<close>

theorem allocation_invariant:
  "(valid_network parent \<and> distinct (leaf_ids s) \<and> set (leaf_ids s) \<inter> fst ` set res = {} \<and>
    compute_rec parent s res = (Inr (), res') \<longrightarrow>
      (\<exists>new. res' = res @ new \<and> map fst new = leaf_ids s \<and>
         (\<forall>b\<in>set (map snd new). valid_network b \<and> addresses b \<subseteq> addresses parent) \<and>
         (\<forall>n. find_structure_len s = Inr n \<and> 2 \<le> n \<longrightarrow>
            (\<forall>b\<in>set (map snd new). addresses b \<subset> addresses parent)) \<and>
         disjoint_blocks (map snd new))) \<and>
   (valid_network (network_cidr cfg) \<and> distinct (leaf_ids (cfg_structure cfg)) \<and>
    fst (compute (Calculator cfg dm)) = Inr m \<longrightarrow>
      map fst m = leaf_ids (cfg_structure cfg) \<and>
      (\<forall>b\<in>set (map snd m). valid_network b \<and> addresses b \<subseteq> addresses (network_cidr cfg)) \<and>
      (\<forall>n. find_structure_len (cfg_structure cfg) = Inr n \<and> 2 \<le> n \<longrightarrow>
         (\<forall>b\<in>set (map snd m). addresses b \<subset> addresses (network_cidr cfg))) \<and>
      disjoint_blocks (map snd m))"
proof (intro conjI impI)
  assume a: "valid_network parent \<and> distinct (leaf_ids s) \<and>
    set (leaf_ids s) \<inter> fst ` set res = {} \<and> compute_rec parent s res = (Inr (), res')"
  then have v: "valid_network parent" and ok: "compute_rec parent s res = (Inr (), res')"
    by simp_all
  from a have "res' = res @ leaf_blocks parent s"
    "map fst (leaf_blocks parent s) = leaf_ids s"
    "\<forall>b\<in>set (map snd (leaf_blocks parent s)). valid_network b \<and> addresses b \<subseteq> addresses parent"
    "disjoint_blocks (map snd (leaf_blocks parent s))"
    using allocation_level[of parent s res "()" res'] by blast+
  moreover have "\<forall>n. find_structure_len s = Inr n \<and> 2 \<le> n \<longrightarrow>
      (\<forall>b\<in>set (map snd (leaf_blocks parent s)). addresses b \<subset> addresses parent)"
    using level_strict[OF v ok] by fastforce
  ultimately show "\<exists>new. res' = res @ new \<and> map fst new = leaf_ids s \<and>
         (\<forall>b\<in>set (map snd new). valid_network b \<and> addresses b \<subseteq> addresses parent) \<and>
         (\<forall>n. find_structure_len s = Inr n \<and> 2 \<le> n \<longrightarrow>
            (\<forall>b\<in>set (map snd new). addresses b \<subset> addresses parent)) \<and>
         disjoint_blocks (map snd new)"
    by blast
next
  assume a: "valid_network (network_cidr cfg) \<and> distinct (leaf_ids (cfg_structure cfg)) \<and>
    fst (compute (Calculator cfg dm)) = Inr m"
  then have ok: "compute_rec (network_cidr cfg) (cfg_structure cfg) [] = (Inr (), m)"
    by (auto simp: compute_def Calculator_def split: prod.splits sum.splits)
  have fresh: "set (leaf_ids (cfg_structure cfg)) \<inter> fst ` set [] = {}" by simp
  from a have v: "valid_network (network_cidr cfg)"
    and d: "distinct (leaf_ids (cfg_structure cfg))" by simp_all
  note L = allocation_level[OF v d fresh ok]
  have m: "m = leaf_blocks (network_cidr cfg) (cfg_structure cfg)" using L(1) by simp
  show "map fst m = leaf_ids (cfg_structure cfg)" unfolding m by (rule L(2))
  show "\<forall>b\<in>set (map snd m). valid_network b \<and> addresses b \<subseteq> addresses (network_cidr cfg)"
    unfolding m by (rule L(3))
  show "\<forall>n. find_structure_len (cfg_structure cfg) = Inr n \<and> 2 \<le> n \<longrightarrow>
         (\<forall>b\<in>set (map snd m). addresses b \<subset> addresses (network_cidr cfg))"
    unfolding m using level_strict[OF v ok] by fastforce
  show "disjoint_blocks (map snd m)" unfolding m by (rule L(4))
qed

theorem allocation_invariant_witness:
  "valid_network \<lparr>network_address = 167837696, prefixlen = 16\<rparr> \<and>
   distinct (leaf_ids [StrItem ''a'', ListItem [StrItem ''b'', StrItem ''c'']]) \<and>
   find_structure_len [StrItem ''a'', ListItem [StrItem ''b'', StrItem ''c'']] = Inr 2 \<and>
   fst (compute (Calculator
     \<lparr>network_cidr = \<lparr>network_address = 167837696, prefixlen = 16\<rparr>, metadata = Map.empty,
      cfg_structure = [StrItem ''a'', ListItem [StrItem ''b'', StrItem ''c'']]\<rparr> None)) =
     Inr [(''a'', \<lparr>network_address = 167837696, prefixlen = 17\<rparr>),
          (''b'', \<lparr>network_address = 167870464, prefixlen = 18\<rparr>),
          (''c'', \<lparr>network_address = 167886848, prefixlen = 18\<rparr>)] \<and>
   addresses \<lparr>network_address = 167837696, prefixlen = 17\<rparr>
     \<subset> addresses \<lparr>network_address = 167837696, prefixlen = 16\<rparr> \<and>
   addresses \<lparr>network_address = 167870464, prefixlen = 18\<rparr>
     \<subset> addresses \<lparr>network_address = 167837696, prefixlen = 16\<rparr> \<and>
   addresses \<lparr>network_address = 167886848, prefixlen = 18\<rparr>
     \<subset> addresses \<lparr>network_address = 167837696, prefixlen = 16\<rparr> \<and>
   disjoint_blocks [\<lparr>network_address = 167837696, prefixlen = 17\<rparr>,
                    \<lparr>network_address = 167870464, prefixlen = 18\<rparr>,
                    \<lparr>network_address = 167886848, prefixlen = 18\<rparr>]"
proof -
  let ?root = "\<lparr>network_address = 167837696, prefixlen = 16\<rparr>"
  let ?s = "[StrItem ''a'', ListItem [StrItem ''b'', StrItem ''c'']]"
  let ?cfg = "\<lparr>network_cidr = ?root, metadata = Map.empty, cfg_structure = ?s\<rparr>"
  let ?m = "[(''a'', \<lparr>network_address = 167837696, prefixlen = 17\<rparr>),
          (''b'', \<lparr>network_address = 167870464, prefixlen = 18\<rparr>),
          (''c'', \<lparr>network_address = 167886848, prefixlen = 18\<rparr>)]"
  have v: "valid_network ?root" by (simp add: valid_network_def)
  have d: "distinct (leaf_ids ?s)" by (simp add: leaf_ids_def)
  have n: "find_structure_len ?s = Inr 2" by (simp add: find_structure_len_def)
  have c: "fst (compute (Calculator ?cfg None)) = Inr ?m"
    by (simp add: compute_def Calculator_def eval_simps)
  have "valid_network (network_cidr ?cfg) \<and> distinct (leaf_ids (cfg_structure ?cfg)) \<and>
    fst (compute (Calculator ?cfg None)) = Inr ?m"
    using v d c by simp
  with allocation_invariant[where cfg = ?cfg and dm = None and m = ?m]
  have k: "map fst ?m = leaf_ids (cfg_structure ?cfg)"
    and s: "\<forall>n. find_structure_len (cfg_structure ?cfg) = Inr n \<and> 2 \<le> n \<longrightarrow>
         (\<forall>b\<in>set (map snd ?m). addresses b \<subset> addresses (network_cidr ?cfg))"
    and j: "disjoint_blocks (map snd ?m)"
    by blast+
  from s n have "\<forall>b\<in>set (map snd ?m). addresses b \<subset> addresses ?root" by simp
  then show ?thesis using v d n c j by simp
qed

section \<open>Repeated identifiers\<close>

text \<open>
  Claim C5, as stated, has allocation raise a duplicate-identifier error when a leaf
  identifier occurs twice.  The program has no such check: with the leaf \<^verbatim>\<open>a\<close> twice,
  allocation returns a mapping.
\<close>

theorem duplicate_identifier_counterexample:
  "\<not> distinct (leaf_ids [StrItem ''a'', StrItem ''a'']) \<and>
   fst (compute (Calculator
     \<lparr>network_cidr = \<lparr>network_address = 167772160, prefixlen = 8\<rparr>, metadata = Map.empty,
      cfg_structure = [StrItem ''a'', StrItem ''a'']\<rparr> None)) =
     Inr [(''a'', \<lparr>network_address = 176160768, prefixlen = 9\<rparr>)]"
  by (simp add: leaf_ids_def compute_def Calculator_def eval_simps)

text \<open>
  Claim C5, amended: a repeated leaf identifier raises no error.  Whether allocation
  succeeds, and with which exception it fails, depends only on the shape of the
  structure, not on the identifiers of its leaves, so a structure with a repeated
  identifier behaves like the same structure with distinct ones; and when allocation
  succeeds the mapping keeps a single entry for each identifier, its keys being the
  earlier keys and the leaf identifiers of the structure.
\<close>

theorem duplicate_identifiers_no_error:
  "(list_all2 same_shape s t \<longrightarrow>
      fst (compute_rec parent s res) = fst (compute_rec parent t res)) \<and>
   (compute_rec parent s res = (Inr (), res') \<and> distinct (map fst res) \<longrightarrow>
      distinct (map fst res') \<and> set (map fst res') = set (map fst res) \<union> set (leaf_ids s))"
proof (intro conjI impI)
  assume "list_all2 same_shape s t"
  then show "fst (compute_rec parent s res) = fst (compute_rec parent t res)"
    by (rule outcome_shape(1))
next
  assume a: "compute_rec parent s res = (Inr (), res') \<and> distinct (map fst res)"
  then have r: "res' = dict_set_all res (leaf_blocks parent s)"
    and k: "map fst (leaf_blocks parent s) = leaf_ids s"
    using compute_refines(1)[of parent s res "()" res'] by simp_all
  show "distinct (map fst res')" unfolding r using a by (intro dict_set_all_distinct) simp
  show "set (map fst res') = set (map fst res) \<union> set (leaf_ids s)"
    unfolding r dict_set_all_keys k ..
qed

theorem duplicate_identifiers_no_error_witness:
  "list_all2 same_shape [StrItem ''a'', StrItem ''a''] [StrItem ''a'', StrItem ''b''] \<and>
   fst (compute_rec \<lparr>network_address = 167772160, prefixlen = 8\<rparr>
          [StrItem ''a'', StrItem ''a''] []) =
   fst (compute_rec \<lparr>network_address = 167772160, prefixlen = 8\<rparr>
          [StrItem ''a'', StrItem ''b''] []) \<and>
   compute_rec \<lparr>network_address = 167772160, prefixlen = 8\<rparr>
     [StrItem ''a'', StrItem ''a''] [] =
     (Inr (), [(''a'', \<lparr>network_address = 176160768, prefixlen = 9\<rparr>)]) \<and>
   distinct (map fst ([] :: (string \<times> ipv4network) list)) \<and>
   set (map fst [(''a'', \<lparr>network_address = 176160768, prefixlen = 9\<rparr>)]) =
     set (map fst ([] :: (string \<times> ipv4network) list)) \<union> set (leaf_ids [StrItem ''a'', StrItem ''a''])"
proof -
  let ?root = "\<lparr>network_address = 167772160, prefixlen = 8\<rparr>"
  let ?s = "[StrItem ''a'', StrItem ''a'']"
  let ?t = "[StrItem ''a'', StrItem ''b'']"
  let ?m = "[(''a'', \<lparr>network_address = 176160768, prefixlen = 9\<rparr>)]"
  have sh: "list_all2 same_shape ?s ?t" by simp
  have c: "compute_rec ?root ?s [] = (Inr (), ?m)" by (simp add: eval_simps)
  have d: "distinct (map fst ([] :: (string \<times> ipv4network) list))" by simp
  note T = duplicate_identifiers_no_error[of ?s ?t ?root "[]" ?m]
  from T sh have "fst (compute_rec ?root ?s []) = fst (compute_rec ?root ?t [])" by blast
  moreover from T c d have "set (map fst ?m) = set (map fst ([] :: (string \<times> ipv4network) list))
      \<union> set (leaf_ids ?s)" by blast
  ultimately show ?thesis using sh c d by blast
qed

text \<open>
  Claim C6: a leaf identifier that occurs more than once does not make allocation fail:
  allocation of a structure succeeds, or fails with the same exception, exactly as
  allocation of any structure of the same shape does, whatever the identifiers of the
  leaves and whatever the mapping already holds; in particular a structure with a
  repeated identifier is allocated whenever the structure with that leaf renamed is.
  The later leaf overwrites the earlier entry: after a successful allocation every leaf
  identifier is mapped to the block of its last occurrence in the pre-order list of
  leaves, and all other keys are left as they were.
\<close>

theorem duplicate_last_wins:
  "(list_all2 same_shape s t \<longrightarrow>
      fst (compute_rec parent s res) = fst (compute_rec parent t res2)) \<and>
   fst (compute_rec parent s res) = fst (compute_rec parent s []) \<and>
   (compute_rec parent s res = (Inr (), res') \<longrightarrow>
      map fst (leaf_blocks parent s) = leaf_ids s \<and>
      (\<forall>k b. k \<in> set (leaf_ids s) \<longrightarrow>
         (map_of res' k = Some b \<longleftrightarrow>
            (\<exists>pre post. leaf_blocks parent s = pre @ (k, b) # post \<and> k \<notin> fst ` set post))) \<and>
      (\<forall>k. k \<notin> set (leaf_ids s) \<longrightarrow> map_of res' k = map_of res k))"
proof (intro conjI impI allI)
  assume "list_all2 same_shape s t"
  then show "fst (compute_rec parent s res) = fst (compute_rec parent t res2)"
    by (rule outcome_shape(1))
next
  show "fst (compute_rec parent s res) = fst (compute_rec parent s [])"
    by (rule outcome_independent_of_mapping)
next
  assume a: "compute_rec parent s res = (Inr (), res')"
  then have r: "res' = dict_set_all res (leaf_blocks parent s)"
    and k: "map fst (leaf_blocks parent s) = leaf_ids s"
    using compute_refines(1)[of parent s res "()" res'] by simp_all
  have m: "map_of res' = map_of res ++ map_of (rev (leaf_blocks parent s))"
    unfolding r by (rule map_of_dict_set_all)
  show "map fst (leaf_blocks parent s) = leaf_ids s" by (rule k)
  {
    fix k' b assume "k' \<in> set (leaf_ids s)"
    then have "k' \<in> fst ` set (rev (leaf_blocks parent s))" using k by (metis set_map set_rev)
    then obtain b' where "map_of (rev (leaf_blocks parent s)) k' = Some b'"
      by (metis domD dom_map_of_conv_image_fst)
    then have "map_of res' k' = map_of (rev (leaf_blocks parent s)) k'"
      unfolding m by (simp add: map_add_def)
    then show "map_of res' k' = Some b \<longleftrightarrow>
        (\<exists>pre post. leaf_blocks parent s = pre @ (k', b) # post \<and> k' \<notin> fst ` set post)"
      by (simp add: map_of_rev_last)
  }
  {
    fix k' assume "k' \<notin> set (leaf_ids s)"
    then have "k' \<notin> fst ` set (rev (leaf_blocks parent s))" using k by (metis set_map set_rev)
    then have "map_of (rev (leaf_blocks parent s)) k' = None"
      by (simp add: map_of_eq_None_iff)
    then show "map_of res' k' = map_of res k'" unfolding m by (simp add: map_add_def)
  }
qed

theorem duplicate_last_wins_witness:
  "list_all2 same_shape [StrItem ''a'', StrItem ''b'', StrItem ''a'']
     [StrItem ''a'', StrItem ''b'', StrItem ''c''] \<and>
   fst (compute_rec \<lparr>network_address = 167772160, prefixlen = 8\<rparr>
          [StrItem ''a'', StrItem ''b'', StrItem ''c''] []) = Inr () \<and>
   fst (compute_rec \<lparr>network_address = 167772160, prefixlen = 8\<rparr>
          [StrItem ''a'', StrItem ''b'', StrItem ''a''] []) =
   fst (compute_rec \<lparr>network_address = 167772160, prefixlen = 8\<rparr>
          [StrItem ''a'', StrItem ''b'', StrItem ''c''] []) \<and>
   compute_rec \<lparr>network_address = 167772160, prefixlen = 8\<rparr>
     [StrItem ''a'', StrItem ''b'', StrItem ''a''] [] =
     (Inr (), [(''a'', \<lparr>network_address = 176160768, prefixlen = 10\<rparr>),
               (''b'', \<lparr>network_address = 171966464, prefixlen = 10\<rparr>)]) \<and>
   ''a'' \<in> set (leaf_ids [StrItem ''a'', StrItem ''b'', StrItem ''a'']) \<and>
   leaf_blocks \<lparr>network_address = 167772160, prefixlen = 8\<rparr>
     [StrItem ''a'', StrItem ''b'', StrItem ''a''] =
     [(''a'', \<lparr>network_address = 167772160, prefixlen = 10\<rparr>),
      (''b'', \<lparr>network_address = 171966464, prefixlen = 10\<rparr>),
      (''a'', \<lparr>network_address = 176160768, prefixlen = 10\<rparr>)] \<and>
   (\<exists>pre post.
      leaf_blocks \<lparr>network_address = 167772160, prefixlen = 8\<rparr>
        [StrItem ''a'', StrItem ''b'', StrItem ''a''] =
        pre @ (''a'', \<lparr>network_address = 176160768, prefixlen = 10\<rparr>) # post \<and>
      ''a'' \<notin> fst ` set post)"
proof -
  let ?root = "\<lparr>network_address = 167772160, prefixlen = 8\<rparr>"
  let ?s = "[StrItem ''a'', StrItem ''b'', StrItem ''a'']"
  let ?b2 = "\<lparr>network_address = 176160768, prefixlen = 10\<rparr>"
  let ?m = "[(''a'', ?b2), (''b'', \<lparr>network_address = 171966464, prefixlen = 10\<rparr>)]"
  have c: "compute_rec ?root ?s [] = (Inr (), ?m)" by (simp add: eval_simps)
  have a: "''a'' \<in> set (leaf_ids ?s)" by (simp add: leaf_ids_def)
  have l: "leaf_blocks ?root ?s =
     [(''a'', \<lparr>network_address = 167772160, prefixlen = 10\<rparr>),
      (''b'', \<lparr>network_address = 171966464, prefixlen = 10\<rparr>), (''a'', ?b2)]"
    by (simp add: leaf_blocks.simps eval_simps)
  have g: "map_of ?m ''a'' = Some ?b2" by simp
  let ?t = "[StrItem ''a'', StrItem ''b'', StrItem ''c'']"
  have sh: "list_all2 same_shape ?s ?t" by simp
  have ct: "fst (compute_rec ?root ?t []) = Inr ()" by (simp add: eval_simps)
  from duplicate_last_wins[where s = ?s and t = ?t and parent = ?root and res = "[]"
      and ?res2.0 = "[]"] sh
  have eq: "fst (compute_rec ?root ?s []) = fst (compute_rec ?root ?t [])" by blast
  from duplicate_last_wins[where parent = ?root and s = ?s and res = "[]" and res' = ?m] c a
  have "map_of ?m ''a'' = Some ?b2 \<longleftrightarrow>
     (\<exists>pre post. leaf_blocks ?root ?s = pre @ (''a'', ?b2) # post \<and> ''a'' \<notin> fst ` set post)"
    by blast
  with g have "\<exists>pre post. leaf_blocks ?root ?s = pre @ (''a'', ?b2) # post \<and>
      ''a'' \<notin> fst ` set post"
    by blast
  then show ?thesis using sh ct eq c a l by blast
qed

section \<open>The capacity error\<close>

text \<open>
  Claim C4, as stated, has a failed allocation leave no entry behind.  The entries
  assigned before the exception is raised stay in \<^verbatim>\<open>self.result\<close>: the leaf \<^verbatim>\<open>a\<close> is
  recorded before its sibling list fails the capacity check.
\<close>

theorem partial_mapping_counterexample:
  "fst (compute (Calculator
     \<lparr>network_cidr = \<lparr>network_address = 167772160, prefixlen = 31\<rparr>, metadata = Map.empty,
      cfg_structure = [StrItem ''a'', ListItem [StrItem ''b'', StrItem ''c'']]\<rparr> None)) =
     Inl (ValueError_TooManySubnets 33) \<and>
   result (snd (compute (Calculator
     \<lparr>network_cidr = \<lparr>network_address = 167772160, prefixlen = 31\<rparr>, metadata = Map.empty,
      cfg_structure = [StrItem ''a'', ListItem [StrItem ''b'', StrItem ''c'']]\<rparr> None))) =
     [(''a'', \<lparr>network_address = 167772160, prefixlen = 32\<rparr>)]"
  by (simp add: compute_def Calculator_def eval_simps)

text \<open>
  Claim C4, amended: when the prefix found for a structure plus the prefix length of its
  parent block exceeds 32, \<open>compute_rec\<close> raises the \<^verbatim>\<open>ValueError\<close> "Too many subnets"
  with that sum and leaves the mapping as it was when the level was entered.  An
  exception raised for a nested list leaves the loop and the enclosing call unchanged,
  together with the mapping at that moment, and \<open>compute\<close> hands it on and returns
  no mapping.  Nothing is rolled back: every key present before a call is still present
  after it, so the entries of the leaves walked before the failing branch remain in the
  calculator.
\<close>

theorem capacity_error:
  "(find_structure_len s = Inr n \<and> find_prefix n = Inr p \<and> 32 < p + prefixlen parent \<longrightarrow>
      compute_rec parent s res = (Inl (ValueError_TooManySubnets (p + prefixlen parent)), res)) \<and>
   (find_structure_len s = Inr n \<and> find_prefix n = Inr p \<and> p + prefixlen parent \<le> 32 \<and>
    subnets parent p = Inr cs \<and> s = xs @ ListItem sub # rest \<and>
    compute_loop cs 0 xs res = (Inr (), res1) \<and> list_get cs (length xs) = Inr child \<and>
    compute_rec child sub res1 = (Inl e, res2) \<longrightarrow>
      compute_rec parent s res = (Inl e, res2)) \<and>
   (compute_rec (network_cidr (config self)) (cfg_structure (config self)) (result self) =
      (Inl e, res2) \<longrightarrow> compute self = (Inl e, self\<lparr>result := res2\<rparr>)) \<and>
   fst ` set res \<subseteq> fst ` set (snd (compute_rec parent s res))"
proof (intro conjI impI)
  assume "find_structure_len s = Inr n \<and> find_prefix n = Inr p \<and> 32 < p + prefixlen parent"
  then show "compute_rec parent s res =
      (Inl (ValueError_TooManySubnets (p + prefixlen parent)), res)"
    by (simp add: compute_rec.simps)
next
  assume a: "find_structure_len s = Inr n \<and> find_prefix n = Inr p \<and> p + prefixlen parent \<le> 32 \<and>
    subnets parent p = Inr cs \<and> s = xs @ ListItem sub # rest \<and>
    compute_loop cs 0 xs res = (Inr (), res1) \<and> list_get cs (length xs) = Inr child \<and>
    compute_rec child sub res1 = (Inl e, res2)"
  then show "compute_rec parent s res = (Inl e, res2)"
    using nested_error_propagates[of s n p parent cs xs sub rest res res1 child e res2] by blast
next
  assume "compute_rec (network_cidr (config self)) (cfg_structure (config self)) (result self) =
      (Inl e, res2)"
  then show "compute self = (Inl e, self\<lparr>result := res2\<rparr>)"
    by (simp add: compute_def)
next
  show "fst ` set res \<subseteq> fst ` set (snd (compute_rec parent s res))"
    by (rule keys_kept(1))
qed

theorem capacity_error_witness:
  "find_structure_len [StrItem ''b'', StrItem ''c''] = Inr 2 \<and> find_prefix 2 = Inr 1 \<and>
   32 < 1 + prefixlen \<lparr>network_address = 167772161, prefixlen = 32\<rparr> \<and>
   compute_rec \<lparr>network_address = 167772161, prefixlen = 32\<rparr> [StrItem ''b'', StrItem ''c'']
     [(''a'', \<lparr>network_address = 167772160, prefixlen = 32\<rparr>)] =
     (Inl (ValueError_TooManySubnets 33),
      [(''a'', \<lparr>network_address = 167772160, prefixlen = 32\<rparr>)]) \<and>
   compute_rec \<lparr>network_address = 167772160, prefixlen = 31\<rparr>
     [StrItem ''a'', ListItem [StrItem ''b'', StrItem ''c'']] [] =
     (Inl (ValueError_TooManySubnets 33),
      [(''a'', \<lparr>network_address = 167772160, prefixlen = 32\<rparr>)]) \<and>
   compute (Calculator
     \<lparr>network_cidr = \<lparr>network_address = 167772160, prefixlen = 31\<rparr>, metadata = Map.empty,
      cfg_structure = [StrItem ''a'', ListItem [StrItem ''b'', StrItem ''c'']]\<rparr> None) =
     (Inl (ValueError_TooManySubnets 33),
      (Calculator
        \<lparr>network_cidr = \<lparr>network_address = 167772160, prefixlen = 31\<rparr>, metadata = Map.empty,
         cfg_structure = [StrItem ''a'', ListItem [StrItem ''b'', StrItem ''c'']]\<rparr> None)
      \<lparr>result := [(''a'', \<lparr>network_address = 167772160, prefixlen = 32\<rparr>)]\<rparr>)"
proof -
  let ?root = "\<lparr>network_address = 167772160, prefixlen = 31\<rparr>"
  let ?b0 = "\<lparr>network_address = 167772160, prefixlen = 32\<rparr>"
  let ?b1 = "\<lparr>network_address = 167772161, prefixlen = 32\<rparr>"
  let ?sub = "[StrItem ''b'', StrItem ''c'']"
  let ?s = "[StrItem ''a'', ListItem ?sub]"
  let ?e = "ValueError_TooManySubnets 33"
  let ?self = "Calculator \<lparr>network_cidr = ?root, metadata = Map.empty, cfg_structure = ?s\<rparr> None"
  have len: "find_structure_len ?sub = Inr 2" by (simp add: find_structure_len_def)
  have pre: "find_prefix 2 = Inr 1" by (simp add: find_prefix_def upt_rec)
  have big: "32 < 1 + prefixlen ?b1" by simp
  from capacity_error[where s = ?sub and n = 2 and p = 1 and parent = ?b1
      and res = "[(''a'', ?b0)]"] len pre big
  have c1: "compute_rec ?b1 ?sub [(''a'', ?b0)] = (Inl ?e, [(''a'', ?b0)])" by simp
  have h2: "find_structure_len ?s = Inr 2" "1 + prefixlen ?root \<le> 32"
    "subnets ?root 1 = Inr [?b0, ?b1]" "?s = [StrItem ''a''] @ ListItem ?sub # []"
    "compute_loop [?b0, ?b1] 0 [StrItem ''a''] [] = (Inr (), [(''a'', ?b0)])"
    "list_get [?b0, ?b1] (length [StrItem ''a'']) = Inr ?b1"
    by (simp_all add: eval_simps)
  from capacity_error[where s = ?s and n = 2 and p = 1 and parent = ?root and res = "[]"
      and cs = "[?b0, ?b1]" and xs = "[StrItem ''a'']" and sub = ?sub and rest = "[]"
      and ?res1.0 = "[(''a'', ?b0)]" and child = ?b1 and e = ?e and ?res2.0 = "[(''a'', ?b0)]"]
    h2 pre c1
  have c2: "compute_rec ?root ?s [] = (Inl ?e, [(''a'', ?b0)])" by blast
  then have h3: "compute_rec (network_cidr (config ?self)) (cfg_structure (config ?self))
      (result ?self) = (Inl ?e, [(''a'', ?b0)])"
    by (simp add: Calculator_def)
  from capacity_error[where self = ?self and e = ?e and ?res2.0 = "[(''a'', ?b0)]"] h3
  have c3: "compute ?self = (Inl ?e, ?self\<lparr>result := [(''a'', ?b0)]\<rparr>)" by blast
  show ?thesis using len pre big c1 c2 c3 by blast
qed

section \<open>The positional lookup\<close>

text \<open>
  Claim C10: at a level whose placeholder dictionaries all have a count of at least one
  and whose capacity check passes, the split of a valid parent has \<open>2 ^ prefix\<close> blocks,
  at least as many as the structure has items, so \<^verbatim>\<open>child_subnets[i]\<close> is in range for
  every index of the walk; hence a structure whose counts are at least one at every depth
  never raises \<^verbatim>\<open>IndexError\<close>.  With a count of \<open>0\<close> or \<open>-1\<close> the lookup does go out of
  range.
\<close>

theorem child_lookup_in_bounds:
  "(valid_network parent \<and>
    (\<forall>it\<in>set s. \<forall>c. it = DictItem c \<longrightarrow> (\<exists>k\<ge>1. c = Some k)) \<and>
    find_structure_len s = Inr n \<and> find_prefix n = Inr p \<and> p + prefixlen parent \<le> 32 \<and>
    subnets parent p = Inr cs \<longrightarrow>
      length cs = 2 ^ p \<and> length s \<le> length cs \<and>
      (\<forall>i<length s. list_get cs i = Inr (cs ! i))) \<and>
   (valid_network parent \<and> list_all counts_ok s \<longrightarrow>
      fst (compute_rec parent s res) \<noteq> Inl IndexError) \<and>
   fst (compute_rec \<lparr>network_address = 167772160, prefixlen = 8\<rparr>
          [DictItem (Some 0), StrItem ''a''] []) = Inl IndexError \<and>
   fst (compute_rec \<lparr>network_address = 167772160, prefixlen = 8\<rparr>
          [DictItem (Some (- 1)), StrItem ''a'', StrItem ''b''] []) = Inl IndexError"
proof (intro conjI impI)
  assume a: "valid_network parent \<and>
    (\<forall>it\<in>set s. \<forall>c. it = DictItem c \<longrightarrow> (\<exists>k\<ge>1. c = Some k)) \<and>
    find_structure_len s = Inr n \<and> find_prefix n = Inr p \<and> p + prefixlen parent \<le> 32 \<and>
    subnets parent p = Inr cs"
  then have v: "valid_network parent"
    and c: "\<forall>it\<in>set s. \<forall>c. it = DictItem c \<longrightarrow> (\<exists>k\<ge>1. c = Some k)"
    and n: "find_structure_len s = Inr n" and p: "find_prefix n = Inr p"
    and le: "p + prefixlen parent \<le> 32" and cs: "subnets parent p = Inr cs"
    by blast+
  note L = split_covers_items[OF v c n p le cs]
  show "length cs = 2 ^ p" by (rule L(1))
  show "length s \<le> length cs" by (rule L(3))
  show "\<forall>i<length s. list_get cs i = Inr (cs ! i)"
    using L(3) by (simp add: list_get_def)
next
  assume "valid_network parent \<and> list_all counts_ok s"
  then show "fst (compute_rec parent s res) \<noteq> Inl IndexError"
    using no_index_error(1) by blast
next
  show "fst (compute_rec \<lparr>network_address = 167772160, prefixlen = 8\<rparr>
          [DictItem (Some 0), StrItem ''a''] []) = Inl IndexError"
    by (simp add: eval_simps)
  show "fst (compute_rec \<lparr>network_address = 167772160, prefixlen = 8\<rparr>
          [DictItem (Some (- 1)), StrItem ''a'', StrItem ''b''] []) = Inl IndexError"
    by (simp add: eval_simps)
qed

theorem child_lookup_in_bounds_witness:
  "valid_network \<lparr>network_address = 167772160, prefixlen = 8\<rparr> \<and>
   list_all counts_ok [StrItem ''a'', DictItem (Some 2)] \<and>
   find_structure_len [StrItem ''a'', DictItem (Some 2)] = Inr 3 \<and> find_prefix 3 = Inr 2 \<and>
   2 + prefixlen \<lparr>network_address = 167772160, prefixlen = 8\<rparr> \<le> 32 \<and>
   subnets \<lparr>network_address = 167772160, prefixlen = 8\<rparr> 2 =
     Inr [\<lparr>network_address = 167772160, prefixlen = 10\<rparr>,
          \<lparr>network_address = 171966464, prefixlen = 10\<rparr>,
          \<lparr>network_address = 176160768, prefixlen = 10\<rparr>,
          \<lparr>network_address = 180355072, prefixlen = 10\<rparr>] \<and>
   length [StrItem ''a'', DictItem (Some 2)] \<le>
     length [\<lparr>network_address = 167772160, prefixlen = 10\<rparr>,
          \<lparr>network_address = 171966464, prefixlen = 10\<rparr>,
          \<lparr>network_address = 176160768, prefixlen = 10\<rparr>,
          \<lparr>network_address = 180355072, prefixlen = 10\<rparr>] \<and>
   list_get [\<lparr>network_address = 167772160, prefixlen = 10\<rparr>,
          \<lparr>network_address = 171966464, prefixlen = 10\<rparr>,
          \<lparr>network_address = 176160768, prefixlen = 10\<rparr>,
          \<lparr>network_address = 180355072, prefixlen = 10\<rparr>] 1 =
     Inr \<lparr>network_address = 171966464, prefixlen = 10\<rparr> \<and>
   fst (compute_rec \<lparr>network_address = 167772160, prefixlen = 8\<rparr>
          [StrItem ''a'', DictItem (Some 2)] []) \<noteq> Inl IndexError"
proof -
  let ?root = "\<lparr>network_address = 167772160, prefixlen = 8\<rparr>"
  let ?s = "[StrItem ''a'', DictItem (Some 2)]"
  let ?cs = "[\<lparr>network_address = 167772160, prefixlen = 10\<rparr>,
          \<lparr>network_address = 171966464, prefixlen = 10\<rparr>,
          \<lparr>network_address = 176160768, prefixlen = 10\<rparr>,
          \<lparr>network_address = 180355072, prefixlen = 10\<rparr>]"
  have v: "valid_network ?root" by (simp add: valid_network_def)
  have ok: "list_all counts_ok ?s" by simp
  have lvl: "\<forall>it\<in>set ?s. \<forall>c. it = DictItem c \<longrightarrow> (\<exists>k\<ge>1. c = Some k)" by simp
  have n: "find_structure_len ?s = Inr 3" by (simp add: find_structure_len_def)
  have p: "find_prefix 3 = Inr 2" by (simp add: find_prefix_def upt_rec)
  have le: "2 + prefixlen ?root \<le> 32" by simp
  have cs: "subnets ?root 2 = Inr ?cs" by (simp add: eval_simps)
  note T = child_lookup_in_bounds[where parent = ?root and s = ?s and n = 3 and p = 2
      and cs = ?cs and res = "[]"]
  from T v lvl n p le cs have b: "length ?s \<le> length ?cs"
    and g: "\<forall>i<length ?s. list_get ?cs i = Inr (?cs ! i)" by blast+
  from g have g1: "list_get ?cs 1 = Inr \<lparr>network_address = 171966464, prefixlen = 10\<rparr>"
    by simp
  from T v ok have ne: "fst (compute_rec ?root ?s []) \<noteq> Inl IndexError" by blast
  show ?thesis using v ok n p le cs b g1 ne by blast
qed

section \<open>The empty structure\<close>

text \<open>
  Claim C7: for an empty structure and a block of prefix length at most 32 the slot count
  is \<open>0\<close> and the prefix found is \<open>0\<close>, \<open>compute_rec\<close> raises nothing and leaves the mapping
  as it is, and \<open>compute\<close> returns the empty mapping; splitting a valid block by \<open>0\<close> bits
  returns the block itself; and an empty nested list, once its block has been looked up,
  adds nothing and lets the walk go on with the next item.
\<close>

theorem empty_structure:
  "(prefixlen parent \<le> 32 \<longrightarrow>
      find_structure_len [] = Inr 0 \<and> find_prefix 0 = Inr 0 \<and>
      compute_rec parent [] res = (Inr (), res) \<and>
      compute (Calculator \<lparr>network_cidr = parent, metadata = md, cfg_structure = []\<rparr> dm) =
        (Inr [], Calculator \<lparr>network_cidr = parent, metadata = md, cfg_structure = []\<rparr> dm)) \<and>
   (valid_network parent \<longrightarrow> subnets parent 0 = Inr [parent]) \<and>
   (list_get cs i = Inr child \<and> prefixlen child \<le> 32 \<longrightarrow>
      compute_loop cs i (ListItem [] # rest) res = compute_loop cs (i + 1) rest res)"
proof -
  have len: "find_structure_len [] = Inr 0" by (simp add: find_structure_len_def)
  have pre: "find_prefix 0 = Inr 0" by (simp add: find_prefix_def upt_rec)
  have rec: "compute_rec net [] r = (Inr (), r)" if "prefixlen net \<le> 32" for net r
  proof -
    have "\<exists>l. subnets net 0 = Inr l"
      using that by (simp add: subnets_def Let_def)
    then obtain l where "subnets net 0 = Inr l" by blast
    then show ?thesis using that len pre by (simp add: compute_rec.simps)
  qed
  have top: "compute (Calculator \<lparr>network_cidr = parent, metadata = md, cfg_structure = []\<rparr> dm) =
        (Inr [], Calculator \<lparr>network_cidr = parent, metadata = md, cfg_structure = []\<rparr> dm)"
    if "prefixlen parent \<le> 32"
    using rec[OF that, of "[]"] by (simp add: compute_def Calculator_def)
  have split: "subnets parent 0 = Inr [parent]" if "valid_network parent"
  proof -
    have "prefixlen parent + 0 \<le> 32" using that by (simp add: valid_network_def)
    from subnets_eq[OF that this] show ?thesis by simp
  qed
  have grp: "compute_loop cs i (ListItem [] # rest) res = compute_loop cs (i + 1) rest res"
    if "list_get cs i = Inr child" "prefixlen child \<le> 32"
    using that rec[OF that(2), of res] by simp
  show ?thesis using len pre rec top split grp by blast
qed

theorem empty_structure_witness:
  "prefixlen \<lparr>network_address = 167772160, prefixlen = 8\<rparr> \<le> 32 \<and>
   valid_network \<lparr>network_address = 167772160, prefixlen = 8\<rparr> \<and>
   compute (Calculator \<lparr>network_cidr = \<lparr>network_address = 167772160, prefixlen = 8\<rparr>,
       metadata = Map.empty, cfg_structure = []\<rparr> None) =
     (Inr [], Calculator \<lparr>network_cidr = \<lparr>network_address = 167772160, prefixlen = 8\<rparr>,
       metadata = Map.empty, cfg_structure = []\<rparr> None) \<and>
   subnets \<lparr>network_address = 167772160, prefixlen = 8\<rparr> 0 =
     Inr [\<lparr>network_address = 167772160, prefixlen = 8\<rparr>] \<and>
   list_get [\<lparr>network_address = 167772160, prefixlen = 9\<rparr>,
             \<lparr>network_address = 176160768, prefixlen = 9\<rparr>] 0 =
     Inr \<lparr>network_address = 167772160, prefixlen = 9\<rparr> \<and>
   compute_loop [\<lparr>network_address = 167772160, prefixlen = 9\<rparr>,
                 \<lparr>network_address = 176160768, prefixlen = 9\<rparr>] 0
       [ListItem [], StrItem ''a''] [] =
     (Inr (), [(''a'', \<lparr>network_address = 176160768, prefixlen = 9\<rparr>)])"
proof -
  let ?root = "\<lparr>network_address = 167772160, prefixlen = 8\<rparr>"
  let ?c0 = "\<lparr>network_address = 167772160, prefixlen = 9\<rparr>"
  let ?c1 = "\<lparr>network_address = 176160768, prefixlen = 9\<rparr>"
  note T = empty_structure[where parent = ?root and md = Map.empty and dm = None
      and cs = "[?c0, ?c1]" and i = 0 and child = ?c0 and rest = "[StrItem ''a'']" and res = "[]"]
  have h1: "prefixlen ?root \<le> 32" by simp
  have h2: "valid_network ?root" by (simp add: valid_network_def)
  have h3: "list_get [?c0, ?c1] 0 = Inr ?c0" "prefixlen ?c0 \<le> 32" by (simp_all add: list_get_def)
  from T h1 have c1: "compute (Calculator \<lparr>network_cidr = ?root,
       metadata = Map.empty, cfg_structure = []\<rparr> None) =
     (Inr [], Calculator \<lparr>network_cidr = ?root, metadata = Map.empty, cfg_structure = []\<rparr> None)"
    by blast
  from T h2 have c2: "subnets ?root 0 = Inr [?root]" by blast
  from T h3 have "compute_loop [?c0, ?c1] 0 (ListItem [] # [StrItem ''a'']) [] =
      compute_loop [?c0, ?c1] (0 + 1) [StrItem ''a''] []" by blast
  also have "\<dots> = (Inr (), [(''a'', ?c1)])" by (simp add: list_get_def)
  finally have c3: "compute_loop [?c0, ?c1] 0 [ListItem [], StrItem ''a''] [] =
      (Inr (), [(''a'', ?c1)])" .
  show ?thesis using h1 h2 h3(1) c1 c2 c3 by blast
qed

section \<open>Placeholders with a count\<close>

text \<open>
  Claim C1 has a placeholder of count \<open>k\<close> consume \<open>k\<close> consecutive sub-blocks, so that
  the item after it is moved by \<open>k\<close> positions.  \<open>find_structure_len\<close> does count the
  placeholder \<^verbatim>\<open>{'__placeholder__': 2}\<close> as two slots (three slots in all, hence four
  sub-blocks), but the walk indexes the sub-blocks by the position of the item in the
  list: the leaf after the placeholder is given the sub-block at index \<open>1\<close>,
  \<^verbatim>\<open>10.64.0.0/10\<close>, not the one at index \<open>2\<close>, \<^verbatim>\<open>10.128.0.0/10\<close>.
\<close>

theorem placeholder_count_not_consumed:
  "find_structure_len [DictItem (Some 2), StrItem ''a''] = Inr 3 \<and>
   subnets \<lparr>network_address = 167772160, prefixlen = 8\<rparr> 2 =
     Inr [\<lparr>network_address = 167772160, prefixlen = 10\<rparr>,
          \<lparr>network_address = 171966464, prefixlen = 10\<rparr>,
          \<lparr>network_address = 176160768, prefixlen = 10\<rparr>,
          \<lparr>network_address = 180355072, prefixlen = 10\<rparr>] \<and>
   fst (compute (Calculator
     \<lparr>network_cidr = \<lparr>network_address = 167772160, prefixlen = 8\<rparr>, metadata = Map.empty,
      cfg_structure = [DictItem (Some 2), StrItem ''a'']\<rparr> None)) =
     Inr [(''a'', \<lparr>network_address = 171966464, prefixlen = 10\<rparr>)]"
  by (simp add: compute_def Calculator_def eval_simps)

section \<open>The structured form read back\<close>

text \<open>
  Claim C9: for every plan of valid networks from which the exporter builds its records,
  the structured form written by \<open>to_dict\<close> holds, record by record, the identifier and the
  \<^verbatim>\<open>cidr\<close>, \<^verbatim>\<open>first_address\<close> and \<^verbatim>\<open>last_address\<close> strings of the original records; the plan
  read back from the form is the original plan, entry by entry; and the records
  re-derived from the form are the original records, so that their \<^verbatim>\<open>cidr\<close>,
  \<^verbatim>\<open>first_address\<close> and \<^verbatim>\<open>last_address\<close> strings are those of the original records.  The
  original records belong to the entries of the plan in order, and their two address
  strings print the lowest and the highest address of the block.  The \<^verbatim>\<open>network_cidr\<close>
  string of the form parses back to the network of the configuration.
\<close>

theorem json_round_trip:
  "((\<forall>net\<in>snd ` set plan. valid_network net) \<and> Exporter cfg plan dm = Inr ex \<longrightarrow>
      map (\<lambda>d. (d_id d, d_cidr d, d_first_address d, d_last_address d))
          (d_subnets (to_dict ex)) =
        map (\<lambda>info. (info_id info, network_compressed (info_cidr info),
                       first_address info, last_address info))
          (exp_data ex) \<and>
      plan_of_form (to_dict ex) = Inr plan \<and>
      rederive_records cfg dm (to_dict ex) = Inr (exp_data ex) \<and>
      map (\<lambda>info. (info_id info, info_cidr info)) (exp_data ex) = plan \<and>
      (\<forall>info\<in>set (exp_data ex).
         first_address info = address_compressed (Min (addresses (info_cidr info))) \<and>
         last_address info = address_compressed (Max (addresses (info_cidr info))))) \<and>
   (valid_network (network_cidr cfg) \<and> Exporter cfg plan dm = Inr ex \<longrightarrow>
      IPv4Network_of_str (d_network_cidr (to_dict ex)) = Inr (network_cidr cfg))"
proof (intro conjI impI)
  assume a: "(\<forall>net\<in>snd ` set plan. valid_network net) \<and> Exporter cfg plan dm = Inr ex"
  then have v: "\<forall>net\<in>snd ` set plan. valid_network net"
    and ex: "Exporter cfg plan dm = Inr ex"
    by simp_all
  note R = Exporter_records[OF v ex]
  show "map (\<lambda>d. (d_id d, d_cidr d, d_first_address d, d_last_address d))
          (d_subnets (to_dict ex)) =
        map (\<lambda>info. (info_id info, network_compressed (info_cidr info),
                       first_address info, last_address info))
          (exp_data ex)"
    by (simp add: to_dict_def comp_def)
  show p: "plan_of_form (to_dict ex) = Inr plan" by (rule plan_of_form_to_dict[OF v ex])
  show "rederive_records cfg dm (to_dict ex) = Inr (exp_data ex)"
    unfolding rederive_records_def p using ex by simp
  show "map (\<lambda>info. (info_id info, info_cidr info)) (exp_data ex) = plan" by (rule R(2))
  show "\<forall>info\<in>set (exp_data ex).
         first_address info = address_compressed (Min (addresses (info_cidr info))) \<and>
         last_address info = address_compressed (Max (addresses (info_cidr info)))"
  proof
    fix info assume "info \<in> set (exp_data ex)"
    with R(3) have g: "valid_network (info_cidr info)"
      "first_address info = address_compressed (network_address (info_cidr info))"
      "last_address info = address_compressed (broadcast_address (info_cidr info))"
      by blast+
    show "first_address info = address_compressed (Min (addresses (info_cidr info))) \<and>
         last_address info = address_compressed (Max (addresses (info_cidr info)))"
      using g(2,3) block_min_max[OF g(1)] by simp
  qed
next
  assume a: "valid_network (network_cidr cfg) \<and> Exporter cfg plan dm = Inr ex"
  then have "exp_config ex = cfg"
    by (auto simp: Exporter_def build_data_def split: sum.splits)
  then show "IPv4Network_of_str (d_network_cidr (to_dict ex)) = Inr (network_cidr cfg)"
    using a by (simp add: to_dict_def IPv4Network_of_str_compressed)
qed

theorem json_round_trip_witness:
  "valid_network \<lparr>network_address = 167772160, prefixlen = 9\<rparr> \<and>
   valid_network \<lparr>network_address = 176160768, prefixlen = 9\<rparr> \<and>
   valid_network \<lparr>network_address = 167772160, prefixlen = 8\<rparr> \<and>
   Exporter
     \<lparr>network_cidr = \<lparr>network_address = 167772160, prefixlen = 8\<rparr>, metadata = Map.empty,
      cfg_structure = [StrItem ''a'', StrItem ''b'']\<rparr>
     [(''a'', \<lparr>network_address = 167772160, prefixlen = 9\<rparr>),
      (''b'', \<lparr>network_address = 176160768, prefixlen = 9\<rparr>)] None =
     Inr \<lparr>exp_config =
            \<lparr>network_cidr = \<lparr>network_address = 167772160, prefixlen = 8\<rparr>,
             metadata = Map.empty, cfg_structure = [StrItem ''a'', StrItem ''b'']\<rparr>,
          exp_structure = [(''a'', \<lparr>network_address = 167772160, prefixlen = 9\<rparr>),
                           (''b'', \<lparr>network_address = 176160768, prefixlen = 9\<rparr>)],
          exp_default_metadata =
            \<lparr>md_name = Some [], md_description = Some ''---'', md_tier = Some ''---''\<rparr>,
          exp_data =
            [\<lparr>info_id = ''a'', info_name = ''a'', info_description = ''---'',
              info_cidr = \<lparr>network_address = 167772160, prefixlen = 9\<rparr>,
              first_address = ''10.0.0.0'', last_address = ''10.127.255.255''\<rparr>,
             \<lparr>info_id = ''b'', info_name = ''b'', info_description = ''---'',
              info_cidr = \<lparr>network_address = 176160768, prefixlen = 9\<rparr>,
              first_address = ''10.128.0.0'', last_address = ''10.255.255.255''\<rparr>]\<rparr> \<and>
   plan_of_form
     \<lparr>d_network_cidr = ''10.0.0.0/8'',
      d_subnets =
        [\<lparr>d_id = ''a'', d_name = ''a'', d_cidr = ''10.0.0.0/9'', d_description = ''---'',
          d_first_address = ''10.0.0.0'', d_last_address = ''10.127.255.255''\<rparr>,
         \<lparr>d_id = ''b'', d_name = ''b'', d_cidr = ''10.128.0.0/9'', d_description = ''---'',
          d_first_address = ''10.128.0.0'', d_last_address = ''10.255.255.255''\<rparr>]\<rparr> =
     Inr [(''a'', \<lparr>network_address = 167772160, prefixlen = 9\<rparr>),
          (''b'', \<lparr>network_address = 176160768, prefixlen = 9\<rparr>)] \<and>
   rederive_records
     \<lparr>network_cidr = \<lparr>network_address = 167772160, prefixlen = 8\<rparr>, metadata = Map.empty,
      cfg_structure = [StrItem ''a'', StrItem ''b'']\<rparr> None
     \<lparr>d_network_cidr = ''10.0.0.0/8'',
      d_subnets =
        [\<lparr>d_id = ''a'', d_name = ''a'', d_cidr = ''10.0.0.0/9'', d_description = ''---'',
          d_first_address = ''10.0.0.0'', d_last_address = ''10.127.255.255''\<rparr>,
         \<lparr>d_id = ''b'', d_name = ''b'', d_cidr = ''10.128.0.0/9'', d_description = ''---'',
          d_first_address = ''10.128.0.0'', d_last_address = ''10.255.255.255''\<rparr>]\<rparr> =
     Inr [\<lparr>info_id = ''a'', info_name = ''a'', info_description = ''---'',
           info_cidr = \<lparr>network_address = 167772160, prefixlen = 9\<rparr>,
           first_address = ''10.0.0.0'', last_address = ''10.127.255.255''\<rparr>,
          \<lparr>info_id = ''b'', info_name = ''b'', info_description = ''---'',
           info_cidr = \<lparr>network_address = 176160768, prefixlen = 9\<rparr>,
           first_address = ''10.128.0.0'', last_address = ''10.255.255.255''\<rparr>] \<and>
   IPv4Network_of_str ''10.0.0.0/8'' = Inr \<lparr>network_address = 167772160, prefixlen = 8\<rparr>"
proof -
  let ?n8 = "\<lparr>network_address = 167772160, prefixlen = 8\<rparr>"
  let ?na = "\<lparr>network_address = 167772160, prefixlen = 9\<rparr>"
  let ?nb = "\<lparr>network_address = 176160768, prefixlen = 9\<rparr>"
  let ?cfg = "\<lparr>network_cidr = ?n8, metadata = Map.empty,
      cfg_structure = [StrItem ''a'', StrItem ''b'']\<rparr>"
  let ?plan = "[(''a'', ?na), (''b'', ?nb)]"
  let ?data = "[\<lparr>info_id = ''a'', info_name = ''a'', info_description = ''---'',
           info_cidr = ?na, first_address = ''10.0.0.0'', last_address = ''10.127.255.255''\<rparr>,
          \<lparr>info_id = ''b'', info_name = ''b'', info_description = ''---'',
           info_cidr = ?nb, first_address = ''10.128.0.0'', last_address = ''10.255.255.255''\<rparr>]"
  let ?ex = "\<lparr>exp_config = ?cfg, exp_structure = ?plan,
          exp_default_metadata =
            \<lparr>md_name = Some [], md_description = Some ''---'', md_tier = Some ''---''\<rparr>,
          exp_data = ?data\<rparr>"
  let ?form = "\<lparr>d_network_cidr = ''10.0.0.0/8'',
      d_subnets =
        [\<lparr>d_id = ''a'', d_name = ''a'', d_cidr = ''10.0.0.0/9'', d_description = ''---'',
          d_first_address = ''10.0.0.0'', d_last_address = ''10.127.255.255''\<rparr>,
         \<lparr>d_id = ''b'', d_name = ''b'', d_cidr = ''10.128.0.0/9'', d_description = ''---'',
          d_first_address = ''10.128.0.0'', d_last_address = ''10.255.255.255''\<rparr>]\<rparr>"
  have v: "valid_network ?na" "valid_network ?nb" "valid_network ?n8"
    by (simp_all add: valid_network_def)
  have vp: "\<forall>net\<in>snd ` set ?plan. valid_network net" using v by simp
  have e: "Exporter ?cfg ?plan None = Inr ?ex"
    by (simp add: Exporter_def build_data_def network_getitem_def IPv4Address_def ALL_ONES_def
        broadcast_address_def hostmask_eq address_compressed_def to_bytes4_def str_nat.simps)
  have t: "to_dict ?ex = ?form"
    by (simp add: to_dict_def network_compressed_def address_compressed_def to_bytes4_def
        str_nat.simps)
  note T = json_round_trip[where plan = ?plan and cfg = ?cfg and dm = None and ex = ?ex]
  from T vp e have "plan_of_form (to_dict ?ex) = Inr ?plan"
    and "rederive_records ?cfg None (to_dict ?ex) = Inr (exp_data ?ex)"
    by blast+
  then have r: "plan_of_form ?form = Inr ?plan" "rederive_records ?cfg None ?form = Inr ?data"
    unfolding t by simp_all
  from T v(3) e have "IPv4Network_of_str (d_network_cidr (to_dict ?ex)) = Inr (network_cidr ?cfg)"
    by simp
  then have n: "IPv4Network_of_str ''10.0.0.0/8'' = Inr ?n8" unfolding t by simp
  show ?thesis using v e r n by blast
qed

section \<open>Names of the records\<close>

text \<open>
  Claim C8 has the name of a record fall back to the identifier whenever the metadata
  gives no name, the metadata fields being optional.  \<^verbatim>\<open>build_data\<close> does so for an
  identifier without metadata and for a name that is the empty string, but a metadata
  entry that leaves \<^verbatim>\<open>name\<close> out holds \<^verbatim>\<open>None\<close> there, and \<^verbatim>\<open>len(None)\<close> raises
  \<^verbatim>\<open>TypeError\<close>: no record is produced at all.
\<close>

theorem exporter_name_missing:
  "Exporter
     \<lparr>network_cidr = \<lparr>network_address = 167772160, prefixlen = 8\<rparr>,
      metadata = [''a'' \<mapsto> \<lparr>md_name = None, md_description = Some ''x'', md_tier = None\<rparr>],
      cfg_structure = [StrItem ''a'']\<rparr>
     [(''a'', \<lparr>network_address = 167772160, prefixlen = 8\<rparr>)] None = Inl TypeError \<and>
   map_sum id (\<lambda>ex. map info_name (exp_data ex)) (Exporter
     \<lparr>network_cidr = \<lparr>network_address = 167772160, prefixlen = 8\<rparr>,
      metadata = [''a'' \<mapsto> \<lparr>md_name = Some [], md_description = Some ''x'', md_tier = None\<rparr>],
      cfg_structure = [StrItem ''a'']\<rparr>
     [(''a'', \<lparr>network_address = 167772160, prefixlen = 8\<rparr>)] None) = Inr [''a''] \<and>
   map_sum id (\<lambda>ex. map info_name (exp_data ex)) (Exporter
     \<lparr>network_cidr = \<lparr>network_address = 167772160, prefixlen = 8\<rparr>,
      metadata = Map.empty,
      cfg_structure = [StrItem ''a'']\<rparr>
     [(''a'', \<lparr>network_address = 167772160, prefixlen = 8\<rparr>)] None) = Inr [''a'']"
  by (simp add: Exporter_def build_data_def network_getitem_def IPv4Address_def ALL_ONES_def
      broadcast_address_def hostmask_eq)

end
